theory Spec2Isabelle
  imports Main "HOL-Library.Word"
begin

unbundle bit_operations_syntax

section \<open>Memory, bytes and the fixed-width encodings\<close>

text \<open>
  The storage core works on raw byte pointers (\<^verbatim>\<open>uint8_t *\<close>) into a page buffer.
  A pointer is modelled as a memory (a map from byte addresses to bytes) together with an
  address; \<^verbatim>\<open>memcpy\<close> out of and into that memory are \<open>load\<close> and \<open>store\<close>.
  Addresses count from the start of the page buffer, so the buffer of a page of \<open>P\<close> bytes
  is the addresses below \<open>P\<close>.
\<close>

type_synonym byte = "8 word"
type_synonym memory = "nat \<Rightarrow> byte"

definition load :: "memory \<Rightarrow> nat \<Rightarrow> nat \<Rightarrow> byte list" where
  "load m a n = map m [a..<a + n]"

definition store :: "memory \<Rightarrow> nat \<Rightarrow> byte list \<Rightarrow> memory" where
  "store m a bs = (\<lambda>k. if a \<le> k \<and> k < a + length bs then bs ! (k - a) else m k)"

text \<open>
  The object representation of an \<^verbatim>\<open>int\<close> or a \<^verbatim>\<open>double\<close>: its bytes, least significant
  first. A \<^verbatim>\<open>double\<close> is carried as its 64-bit pattern, which is all \<^verbatim>\<open>memcpy\<close> sees.
\<close>

definition to_bytes :: "nat \<Rightarrow> 'a::len word \<Rightarrow> byte list" where
  "to_bytes n w = map (\<lambda>k. ucast (drop_bit (8 * k) w)) [0..<n]"

definition from_bytes :: "byte list \<Rightarrow> 'a::len word" where
  "from_bytes bs = word_of_int (horner_sum uint (2 ^ 8) bs)"

text \<open>
  \<^verbatim>\<open>str.c_str()\<close> points at the characters of the string followed by its terminating zero
  byte. Copying \<open>n\<close> bytes from there reads, once the string and its terminator are
  exhausted, whatever the process holds behind them: \<open>behind k\<close> is the \<open>k\<close>-th such byte.
\<close>

definition c_str_read :: "byte list \<Rightarrow> (nat \<Rightarrow> byte) \<Rightarrow> nat \<Rightarrow> byte list" where
  "c_str_read s behind n =
     map (\<lambda>k. if k < length s then s ! k
               else if k = length s then 0
               else behind (k - Suc (length s))) [0..<n]"

text \<open>
  Building a \<^verbatim>\<open>std::string\<close> from a \<^verbatim>\<open>char *\<close> reads up to the first zero byte. The
  scan starts in the buffer \<open>buf\<close> and, when \<open>buf\<close> holds no zero byte, goes on through
  the bytes \<open>beyond\<close> that follow the buffer in memory.
\<close>

definition c_string :: "byte list \<Rightarrow> byte list \<Rightarrow> byte list" where
  "c_string buf beyond = takeWhile (\<lambda>b. b \<noteq> 0) (buf @ beyond)"

section \<open>Tuples and schemas (Tuple.cpp)\<close>

datatype type_t = t_INT | t_DOUBLE | t_CHAR

datatype field_t = IntField "32 word" | DoubleField "64 word" | StringField "byte list"

datatype error =
  invalid_argument | out_of_range | logic_error | bad_variant_access | runtime_error

datatype tuple = Tuple (fields: "field_t list")

definition Tuple_size :: "tuple \<Rightarrow> nat" where
  "Tuple_size t = length (fields t)"

definition get_field :: "tuple \<Rightarrow> nat \<Rightarrow> error + field_t" where
  "get_field t i = (if i < length (fields t) then Inr (fields t ! i) else Inl out_of_range)"

fun holds :: "field_t \<Rightarrow> type_t" where
  "holds (IntField _) = t_INT"
| "holds (DoubleField _) = t_DOUBLE"
| "holds (StringField _) = t_CHAR"

definition field_type :: "tuple \<Rightarrow> nat \<Rightarrow> error + type_t" where
  "field_type t i = (case get_field t i of Inl e \<Rightarrow> Inl e | Inr f \<Rightarrow> Inr (holds f))"

datatype tuple_desc =
  Schema (tupleTypes: "type_t list") (tupleNames: "string list")
         (tupleSchema: "string \<rightharpoonup> nat")

text \<open>
  The constructor: the two nested \<^verbatim>\<open>for\<close> statements look for a pair \<open>i < j\<close> of
  equal names, then the lengths are compared, then the vectors and the name index are
  filled.
\<close>

definition TupleDesc :: "type_t list \<Rightarrow> string list \<Rightarrow> error + tuple_desc" where
  "TupleDesc types names =
     (if list_ex (\<lambda>i. list_ex (\<lambda>j. names ! i = names ! j) [Suc i..<length names])
           [0..<length names]
      then Inl invalid_argument
      else if length types \<noteq> length names then Inl invalid_argument
      else Inr (Schema types names (map_of (zip names [0..<length names]))))"

definition TupleDesc_size :: "tuple_desc \<Rightarrow> nat" where
  "TupleDesc_size td = length (tupleTypes td)"

text \<open>
  \<open>compatible\<close>: the sizes are compared first; inside the loop \<open>i\<close> is below both sizes,
  so neither \<^verbatim>\<open>at\<close> can throw.
\<close>

definition compatible :: "tuple_desc \<Rightarrow> tuple \<Rightarrow> bool" where
  "compatible td t =
     (if Tuple_size t \<noteq> length (tupleTypes td) then False
      else list_all (\<lambda>i. holds (fields t ! i) = tupleTypes td ! i) [0..<Tuple_size t])"

text \<open>
  Modelled from the spec: the header that declares \<^verbatim>\<open>INT_SIZE\<close> and \<^verbatim>\<open>DOUBLE_SIZE\<close> is
  not among the sources. The spec gives integer and floating-point fields their natural
  fixed width (a 32-bit integer, a 64-bit floating-point number); these are also the
  widths of the \<^verbatim>\<open>int\<close> and \<^verbatim>\<open>double\<close> objects the code copies with them.
  \<^verbatim>\<open>CHAR_SIZE\<close> comes from the same header and is a parameter \<open>cs\<close> of every function
  that uses it.
\<close>

definition INT_SIZE :: nat where
  "INT_SIZE = 4"

definition DOUBLE_SIZE :: nat where
  "DOUBLE_SIZE = 8"

fun type_size :: "nat \<Rightarrow> type_t \<Rightarrow> nat" where
  "type_size cs t_INT = INT_SIZE"
| "type_size cs t_DOUBLE = DOUBLE_SIZE"
| "type_size cs t_CHAR = cs"

text \<open>
  \<^verbatim>\<open>tupleTypes.size() - 1\<close> is computed in \<^verbatim>\<open>size_t\<close>: on an empty vector it wraps around
  to the largest 64-bit value.
\<close>

definition size_minus_1 :: "nat \<Rightarrow> nat" where
  "size_minus_1 n = (if n = 0 then 2 ^ 64 - 1 else n - 1)"

fun offset_loop :: "nat \<Rightarrow> type_t list \<Rightarrow> nat list \<Rightarrow> nat \<Rightarrow> error + nat" where
  "offset_loop cs tys [] offset = Inr offset"
| "offset_loop cs tys (i # rest) offset =
     (if i < length tys then offset_loop cs tys rest (offset + type_size cs (tys ! i))
      else Inl out_of_range)"

definition offset_of :: "nat \<Rightarrow> tuple_desc \<Rightarrow> nat \<Rightarrow> error + nat" where
  "offset_of cs td index =
     (if index = 0 then Inr 0
      else if index > size_minus_1 (length (tupleTypes td)) then Inl out_of_range
      else offset_loop cs (tupleTypes td) [0..<index] 0)"

definition TupleDesc_length :: "nat \<Rightarrow> tuple_desc \<Rightarrow> nat" where
  "TupleDesc_length cs td = fold (\<lambda>ty len. len + type_size cs ty) (tupleTypes td) 0"

text \<open>
  \<open>deserialize\<close> walks the types with the pointer \<open>p\<close> advancing. A text field is copied
  into a fresh array of \<open>cs\<close> bytes and turned into a string from the bare pointer, so
  the string ends at the first zero byte; \<open>beyond i\<close> are the bytes that follow the array
  allocated for field \<open>i\<close>.
\<close>

fun deserialize_loop ::
  "nat \<Rightarrow> (nat \<Rightarrow> byte list) \<Rightarrow> memory \<Rightarrow> type_t list \<Rightarrow> nat \<Rightarrow> nat \<Rightarrow> field_t list" where
  "deserialize_loop cs beyond m [] p i = []"
| "deserialize_loop cs beyond m (t_CHAR # tys) p i =
     StringField (c_string (load m p cs) (beyond i))
       # deserialize_loop cs beyond m tys (p + cs) (Suc i)"
| "deserialize_loop cs beyond m (t_INT # tys) p i =
     IntField (from_bytes (load m p INT_SIZE))
       # deserialize_loop cs beyond m tys (p + INT_SIZE) (Suc i)"
| "deserialize_loop cs beyond m (t_DOUBLE # tys) p i =
     DoubleField (from_bytes (load m p DOUBLE_SIZE))
       # deserialize_loop cs beyond m tys (p + DOUBLE_SIZE) (Suc i)"

definition deserialize ::
  "nat \<Rightarrow> (nat \<Rightarrow> byte list) \<Rightarrow> tuple_desc \<Rightarrow> memory \<Rightarrow> nat \<Rightarrow> tuple" where
  "deserialize cs beyond td m p = Tuple (deserialize_loop cs beyond m (tupleTypes td) p 0)"

text \<open>
  \<open>serialize\<close> walks the types with \<open>offset\<close> and the field index \<open>i\<close>. \<^verbatim>\<open>get_field\<close>
  throws when the tuple is too short and \<^verbatim>\<open>std::get\<close> throws when the field holds another
  alternative; what was written before the throw stays written, so the memory is part
  of the result in either case. \<open>behind i\<close> is the memory behind the terminator of the
  string copied out of field \<open>i\<close>.
\<close>

fun serialize_loop ::
  "nat \<Rightarrow> (nat \<Rightarrow> nat \<Rightarrow> byte) \<Rightarrow> tuple \<Rightarrow> nat \<Rightarrow> type_t list \<Rightarrow> nat \<Rightarrow> nat \<Rightarrow> memory
     \<Rightarrow> (error + unit) \<times> memory" where
  "serialize_loop cs behind t p [] offset i m = (Inr (), m)"
| "serialize_loop cs behind t p (t_CHAR # tys) offset i m =
     (case get_field t i of
        Inl e \<Rightarrow> (Inl e, m)
      | Inr (StringField str) \<Rightarrow>
          serialize_loop cs behind t p tys (offset + cs) (Suc i)
            (store m (p + offset) (c_str_read str (behind i) cs))
      | Inr _ \<Rightarrow> (Inl bad_variant_access, m))"
| "serialize_loop cs behind t p (t_DOUBLE # tys) offset i m =
     (case get_field t i of
        Inl e \<Rightarrow> (Inl e, m)
      | Inr (DoubleField num) \<Rightarrow>
          serialize_loop cs behind t p tys (offset + DOUBLE_SIZE) (Suc i)
            (store m (p + offset) (to_bytes DOUBLE_SIZE num))
      | Inr _ \<Rightarrow> (Inl bad_variant_access, m))"
| "serialize_loop cs behind t p (t_INT # tys) offset i m =
     (case get_field t i of
        Inl e \<Rightarrow> (Inl e, m)
      | Inr (IntField num) \<Rightarrow>
          serialize_loop cs behind t p tys (offset + INT_SIZE) (Suc i)
            (store m (p + offset) (to_bytes INT_SIZE num))
      | Inr _ \<Rightarrow> (Inl bad_variant_access, m))"

definition serialize ::
  "nat \<Rightarrow> (nat \<Rightarrow> nat \<Rightarrow> byte) \<Rightarrow> tuple_desc \<Rightarrow> memory \<Rightarrow> nat \<Rightarrow> tuple
     \<Rightarrow> (error + unit) \<times> memory" where
  "serialize cs behind td m p t = serialize_loop cs behind t p (tupleTypes td) 0 0 m"

text \<open>
  \<open>merge\<close>: the nested \<^verbatim>\<open>for\<close> statements compare every name of the first schema
  with every name of the second; without a collision the types and names of both are
  appended in order and handed to the constructor.
\<close>

definition merge :: "tuple_desc \<Rightarrow> tuple_desc \<Rightarrow> error + tuple_desc" where
  "merge td1 td2 =
     (if list_ex (\<lambda>i. list_ex (\<lambda>j. tupleNames td1 ! i = tupleNames td2 ! j)
                        [0..<TupleDesc_size td2])
           [0..<TupleDesc_size td1]
      then Inl invalid_argument
      else TupleDesc
             (map (\<lambda>i. tupleTypes td1 ! i) [0..<TupleDesc_size td1]
                @ map (\<lambda>i. tupleTypes td2 ! i) [0..<TupleDesc_size td2])
             (map (\<lambda>i. tupleNames td1 ! i) [0..<TupleDesc_size td1]
                @ map (\<lambda>i. tupleNames td2 ! i) [0..<TupleDesc_size td2]))"

section \<open>Slotted pages (HeapPage.cpp)\<close>

text \<open>
  A \<^verbatim>\<open>HeapPage\<close> is a view of a page buffer: the schema, the capacity and the two
  pointers \<^verbatim>\<open>header\<close> and \<^verbatim>\<open>data\<close> into the buffer, here addresses. The view owns no
  memory, so every operation takes the page buffer \<open>m\<close> and, when it writes, returns it.
  \<open>P\<close> is \<^verbatim>\<open>page.size()\<close>. The \<^verbatim>\<open>size_t\<close> products and sums of the constructor are
  far below \<open>2 ^ 64\<close> for any page and schema that fit in memory, and \<open>capacity * T\<close>
  never exceeds \<open>P\<close>, so they are computed on natural numbers.
\<close>

datatype heap_page =
  View (hp_td: tuple_desc) (capacity: nat) (header: nat) (data: nat)

definition HeapPage :: "nat \<Rightarrow> nat \<Rightarrow> tuple_desc \<Rightarrow> heap_page" where
  "HeapPage cs P td =
     (let c = (P * 8) div (TupleDesc_length cs td * 8 + 1);
          offset = P - c * TupleDesc_length cs td
      in View td c 0 (0 + offset))"

definition HeapPage_empty :: "heap_page \<Rightarrow> memory \<Rightarrow> nat \<Rightarrow> bool" where
  "HeapPage_empty hp m s =
     (let offset = 7 - s mod 8
      in m (header hp + s div 8) AND push_bit offset 1 = 0)"

function begin_loop :: "heap_page \<Rightarrow> memory \<Rightarrow> nat \<Rightarrow> nat" where
  "begin_loop hp m s =
     (if s < capacity hp \<and> HeapPage_empty hp m s then begin_loop hp m (Suc s) else s)"
  by pat_completeness auto
termination
  by (relation "measure (\<lambda>(hp, m, s). capacity hp - s)") auto

definition HeapPage_begin :: "heap_page \<Rightarrow> memory \<Rightarrow> nat" where
  "HeapPage_begin hp m = begin_loop hp m 0"

definition HeapPage_end :: "heap_page \<Rightarrow> nat" where
  "HeapPage_end hp = capacity hp"

text \<open>
  The scans of \<open>insertTuple\<close> and \<open>next\<close> test the header bit before they compare the
  slot with the capacity.
\<close>

function insert_loop :: "heap_page \<Rightarrow> memory \<Rightarrow> nat \<Rightarrow> nat" where
  "insert_loop hp m s =
     (if \<not> HeapPage_empty hp m s \<and> s < capacity hp then insert_loop hp m (Suc s) else s)"
  by pat_completeness auto
termination
  by (relation "measure (\<lambda>(hp, m, s). capacity hp - s)") auto

text \<open>
  \<open>insertTuple\<close> returns whether the tuple was stored. An exception of \<open>serialize\<close>
  leaves the function before the header bit is set.
\<close>

definition HeapPage_insertTuple ::
  "nat \<Rightarrow> (nat \<Rightarrow> nat \<Rightarrow> byte) \<Rightarrow> heap_page \<Rightarrow> memory \<Rightarrow> tuple \<Rightarrow> (error + bool) \<times> memory" where
  "HeapPage_insertTuple cs behind hp m t =
     (let s = insert_loop hp m 0
      in if s = capacity hp then (Inr False, m)
         else (case serialize cs behind (hp_td hp) m
                      (data hp + s * TupleDesc_length cs (hp_td hp)) t of
                 (Inl e, m') \<Rightarrow> (Inl e, m')
               | (Inr _, m') \<Rightarrow>
                   (Inr True,
                    m'(header hp + s div 8 :=
                         m' (header hp + s div 8) OR push_bit (7 - s mod 8) 1))))"

definition HeapPage_deleteTuple ::
  "heap_page \<Rightarrow> memory \<Rightarrow> nat \<Rightarrow> (error + unit) \<times> memory" where
  "HeapPage_deleteTuple hp m s =
     (if HeapPage_empty hp m s then (Inl logic_error, m)
      else (Inr (),
            m(header hp + s div 8 :=
                m (header hp + s div 8) AND NOT (push_bit (7 - s mod 8) 1))))"

definition HeapPage_getTuple ::
  "nat \<Rightarrow> (nat \<Rightarrow> byte list) \<Rightarrow> heap_page \<Rightarrow> memory \<Rightarrow> nat \<Rightarrow> tuple" where
  "HeapPage_getTuple cs beyond hp m s =
     (let offset = s * TupleDesc_length cs (hp_td hp)
      in deserialize cs beyond (hp_td hp) m (data hp + offset))"

function next_loop :: "heap_page \<Rightarrow> memory \<Rightarrow> nat \<Rightarrow> nat" where
  "next_loop hp m s =
     (if HeapPage_empty hp m s \<and> s < capacity hp then next_loop hp m (Suc s) else s)"
  by pat_completeness auto
termination
  by (relation "measure (\<lambda>(hp, m, s). capacity hp - s)") auto

definition HeapPage_next :: "heap_page \<Rightarrow> memory \<Rightarrow> nat \<Rightarrow> nat" where
  "HeapPage_next hp m s = next_loop hp m (Suc s)"

text \<open>\<^verbatim>\<open>Page{}\<close>: a page buffer of zero bytes.\<close>

definition zero_memory :: memory where
  "zero_memory = (\<lambda>_. 0)"

section \<open>Heap files (HeapFile.cpp, DbFile.cpp)\<close>

text \<open>
  The constructor of \<open>DbFile\<close>: \<open>fd\<close> is what \<^verbatim>\<open>open\<close> returned and \<open>st\<close> the size
  \<^verbatim>\<open>fstat\<close> reported, if it succeeded; \<open>P\<close> is \<^verbatim>\<open>DEFAULT_PAGE_SIZE\<close>, whose declaration
  is not among the sources. The result is \<open>numPages\<close>.
\<close>

definition DbFile :: "nat \<Rightarrow> int \<Rightarrow> nat option \<Rightarrow> error + nat" where
  "DbFile P fd st =
     (if fd = - 1 then Inl runtime_error
      else case st of
             None \<Rightarrow> Inl runtime_error
           | Some st_size \<Rightarrow>
               (let n = st_size div P in if n = 0 then Inr 1 else Inr n))"

datatype Iterator = Iterator (page: nat) (slot: nat)

text \<open>
  \<open>begin\<close>, \<open>end\<close> and \<open>next\<close> only read pages: \<open>rd i\<close> is the buffer as it is
  after \<^verbatim>\<open>readPage(page, i)\<close>, whatever it holds, and \<open>n\<close> is \<open>numPages\<close>. \<^verbatim>\<open>numPages - 1\<close> is a
  \<^verbatim>\<open>size_t\<close> difference. \<open>end\<close> reads page 0 only to build a view, whose capacity does
  not depend on the bytes of the page.
\<close>

definition HeapFile_end :: "nat \<Rightarrow> nat \<Rightarrow> tuple_desc \<Rightarrow> nat \<Rightarrow> Iterator" where
  "HeapFile_end cs P td n = Iterator (size_minus_1 n) (HeapPage_end (HeapPage cs P td))"

function HeapFile_begin_loop ::
  "nat \<Rightarrow> nat \<Rightarrow> tuple_desc \<Rightarrow> (nat \<Rightarrow> memory) \<Rightarrow> nat \<Rightarrow> nat \<Rightarrow> Iterator" where
  "HeapFile_begin_loop cs P td rd n i =
     (if i < n
      then if HeapPage_begin (HeapPage cs P td) (rd i) \<noteq> HeapPage_end (HeapPage cs P td)
           then Iterator i (HeapPage_begin (HeapPage cs P td) (rd i))
           else HeapFile_begin_loop cs P td rd n (Suc i)
      else HeapFile_end cs P td n)"
  by pat_completeness auto
termination
  by (relation "measure (\<lambda>(cs, P, td, rd, n, i). n - i)") auto

definition HeapFile_begin ::
  "nat \<Rightarrow> nat \<Rightarrow> tuple_desc \<Rightarrow> (nat \<Rightarrow> memory) \<Rightarrow> nat \<Rightarrow> Iterator" where
  "HeapFile_begin cs P td rd n = HeapFile_begin_loop cs P td rd n 0"

text \<open>
  \<open>next\<close>: one round of the \<^verbatim>\<open>while (!found)\<close> loop steps inside the current page; at
  the end of a page that is not the last one it moves to slot 0 of the following page
  and, when that slot is empty, goes round again from there.
\<close>

function HeapFile_next ::
  "nat \<Rightarrow> nat \<Rightarrow> tuple_desc \<Rightarrow> (nat \<Rightarrow> memory) \<Rightarrow> nat \<Rightarrow> Iterator \<Rightarrow> Iterator" where
  "HeapFile_next cs P td rd n it =
     (if HeapPage_next (HeapPage cs P td) (rd (page it)) (slot it)
           = HeapPage_end (HeapPage cs P td)
         \<and> page it < size_minus_1 n
      then if \<not> HeapPage_empty (HeapPage cs P td) (rd (Suc (page it))) 0
           then Iterator (Suc (page it)) 0
           else HeapFile_next cs P td rd n (Iterator (Suc (page it)) 0)
      else Iterator (page it)
             (HeapPage_next (HeapPage cs P td) (rd (page it)) (slot it)))"
  by pat_completeness auto
termination
  by (relation "measure (\<lambda>(cs, P, td, rd, n, it). size_minus_1 n - page it)") auto

text \<open>
  A traversal as a caller writes it: start at \<open>begin\<close>, visit the cursor and call
  \<open>next\<close> until the cursor equals \<open>end\<close>. The result is the list of visited cursors,
  or \<open>None\<close> when the traversal never reaches \<open>end\<close>.
\<close>

partial_function (option) traverse_from ::
  "nat \<Rightarrow> nat \<Rightarrow> tuple_desc \<Rightarrow> (nat \<Rightarrow> memory) \<Rightarrow> nat \<Rightarrow> Iterator \<Rightarrow> Iterator list option" where
  "traverse_from cs P td rd n it =
     (if it = HeapFile_end cs P td n then Some []
      else Option.bind (traverse_from cs P td rd n (HeapFile_next cs P td rd n it))
             (\<lambda>rest. Some (it # rest)))"

definition traverse ::
  "nat \<Rightarrow> nat \<Rightarrow> tuple_desc \<Rightarrow> (nat \<Rightarrow> memory) \<Rightarrow> nat \<Rightarrow> Iterator list option" where
  "traverse cs P td rd n = traverse_from cs P td rd n (HeapFile_begin cs P td rd n)"

text \<open>
  The part of a \<open>DbFile\<close> object that changes: the page count and the two logs of
  page ids. \<open>readPage\<close> appends the id to \<open>reads\<close> and does nothing else (the read
  itself is a \<^verbatim>\<open>TODO\<close> comment in its body), so the buffer it was given comes back as it
  was; \<open>writePage\<close> appends the id to \<open>writes\<close> and persists nothing.
\<close>

datatype heap_file = HeapFile (numPages: nat) (reads: "nat list") (writes: "nat list")

definition readPage :: "heap_file \<Rightarrow> memory \<Rightarrow> nat \<Rightarrow> heap_file \<times> memory" where
  "readPage f pg i = (HeapFile (numPages f) (reads f @ [i]) (writes f), pg)"

definition writePage :: "heap_file \<Rightarrow> memory \<Rightarrow> nat \<Rightarrow> heap_file" where
  "writePage f pg i = HeapFile (numPages f) (reads f) (writes f @ [i])"

text \<open>
  \<open>insertTuple\<close> of the heap file: the buffer starts as \<^verbatim>\<open>Page{}\<close> and is handed to
  \<open>readPage\<close>. An exception of the page-level insert leaves the function before
  \<open>writePage\<close> is called; the result of the insert into the fresh page is not looked
  at.
\<close>

definition HeapFile_insertTuple ::
  "nat \<Rightarrow> nat \<Rightarrow> tuple_desc \<Rightarrow> (nat \<Rightarrow> nat \<Rightarrow> byte) \<Rightarrow> heap_file \<Rightarrow> tuple
     \<Rightarrow> (error + unit) \<times> heap_file" where
  "HeapFile_insertTuple cs P td behind f t =
     (case readPage f zero_memory (size_minus_1 (numPages f)) of
        (f1, pg0) \<Rightarrow>
          (case HeapPage_insertTuple cs behind (HeapPage cs P td) pg0 t of
             (Inl e, _) \<Rightarrow> (Inl e, f1)
           | (Inr True, pg) \<Rightarrow> (Inr (), writePage f1 pg (size_minus_1 (numPages f1)))
           | (Inr False, _) \<Rightarrow>
               (case HeapPage_insertTuple cs behind (HeapPage cs P td) zero_memory t of
                  (Inl e, _) \<Rightarrow> (Inl e, f1)
                | (Inr _, pg) \<Rightarrow>
                    (Inr (),
                     writePage (HeapFile (numPages f1 + 1) (reads f1) (writes f1)) pg
                       (size_minus_1 (numPages f1 + 1))))))"

text \<open>The loop equations are unfolded where a proof asks for them, not by default.\<close>

declare begin_loop.simps [simp del]
declare insert_loop.simps [simp del]
declare next_loop.simps [simp del]
declare HeapFile_begin_loop.simps [simp del]
declare HeapFile_next.simps [simp del]

text \<open>A caller that inserts a list of tuples into one page, one after the other.\<close>

fun insert_all ::
  "nat \<Rightarrow> (nat \<Rightarrow> nat \<Rightarrow> byte) \<Rightarrow> heap_page \<Rightarrow> memory \<Rightarrow> tuple list
     \<Rightarrow> (error + bool) list \<times> memory" where
  "insert_all cs behind hp m [] = ([], m)"
| "insert_all cs behind hp m (t # ts) =
     (case HeapPage_insertTuple cs behind hp m t of
        (r, m') \<Rightarrow>
          (case insert_all cs behind hp m' ts of (rs, m'') \<Rightarrow> (r # rs, m'')))"

text \<open>
  What a traversal is expected to visit: the occupied slots of a page from slot \<open>s\<close>
  on, and the occupied cursors of a file from slot \<open>s\<close> of page \<open>p\<close> on, page by page
  and slot by slot.
\<close>

definition occupied_from :: "heap_page \<Rightarrow> memory \<Rightarrow> nat \<Rightarrow> nat list" where
  "occupied_from hp m s = filter (\<lambda>j. \<not> HeapPage_empty hp m j) [s..<capacity hp]"

definition cursors_from ::
  "nat \<Rightarrow> nat \<Rightarrow> tuple_desc \<Rightarrow> (nat \<Rightarrow> memory) \<Rightarrow> nat \<Rightarrow> nat \<Rightarrow> nat \<Rightarrow> Iterator list" where
  "cursors_from cs P td rd n p s =
     map (Iterator p) (occupied_from (HeapPage cs P td) (rd p) s)
       @ concat (map (\<lambda>q. map (Iterator q) (occupied_from (HeapPage cs P td) (rd q) 0))
                   [Suc p..<n])"

text \<open>
  The heap file right after its construction over an empty store: the constructor has
  set the page count to 1, and nothing has been read or written yet.
\<close>

definition new_file :: heap_file where
  "new_file = HeapFile 1 [] []"

text \<open>A caller that inserts a list of tuples into a heap file, one after the other.\<close>

definition insert_into_file ::
  "nat \<Rightarrow> nat \<Rightarrow> tuple_desc \<Rightarrow> (nat \<Rightarrow> nat \<Rightarrow> byte) \<Rightarrow> heap_file \<Rightarrow> tuple list \<Rightarrow> heap_file" where
  "insert_into_file cs P td behind f ts =
     fold (\<lambda>t g. snd (HeapFile_insertTuple cs P td behind g t)) ts f"

section \<open>Example inputs\<close>

text \<open>
  Memory around the strings that holds nothing but zero bytes, a memory whose first byte
  after every temporary array is not zero, and two schemas as the constructor builds them.
\<close>

definition nothing_beyond :: "nat \<Rightarrow> byte list" where
  "nothing_beyond = (\<lambda>_. [])"

definition nothing_behind :: "nat \<Rightarrow> nat \<Rightarrow> byte" where
  "nothing_behind = (\<lambda>_ _. 0)"

definition one_beyond :: "nat \<Rightarrow> byte list" where
  "one_beyond = (\<lambda>_. [98])"

definition name_schema :: tuple_desc where
  "name_schema = Schema [t_CHAR] [''name''] (map_of (zip [''name''] [0..<1]))"

definition mixed_schema :: tuple_desc where
  "mixed_schema = Schema [t_INT, t_DOUBLE, t_CHAR] [''id'', ''score'', ''name'']
                    (map_of (zip [''id'', ''score'', ''name''] [0..<3]))"

definition id_name_schema :: tuple_desc where
  "id_name_schema = Schema [t_INT, t_CHAR] [''id'', ''name'']
                      (map_of (zip [''id'', ''name''] [0..<2]))"

definition id_schema :: tuple_desc where
  "id_schema = Schema [t_INT] [''id''] (map_of (zip [''id''] [0..<1]))"

text \<open>
  Three pages for a page size of 9 bytes and a tuple width of 4 (capacity 2): only slot 1
  is occupied on pages 0 and 2, and page 1 is empty.
\<close>

definition example_pages :: "nat \<Rightarrow> memory" where
  "example_pages i = (if i = 0 \<or> i = 2 then zero_memory(0 := 64) else zero_memory)"

text \<open>A schema of three text fields: with a fixed width of 4 its tuples take 12 bytes.\<close>

definition wide_schema :: tuple_desc where
  "wide_schema = Schema [t_CHAR, t_CHAR, t_CHAR] [''a'', ''b'', ''c'']
                   (map_of (zip [''a'', ''b'', ''c''] [0..<3]))"

section \<open>Schemas: construction and merge\<close>

lemma dup_loop_iff:
  "list_ex (\<lambda>i. list_ex (\<lambda>j. names ! i = names ! j) [Suc i..<length names]) [0..<length names]
     \<longleftrightarrow> \<not> distinct names"
proof -
  have "\<not> distinct names \<longleftrightarrow> (\<exists>i<length names. \<exists>j<length names. i < j \<and> names ! i = names ! j)"
    unfolding distinct_conv_nth
    by (metis nat_neq_iff)
  moreover have "list_ex (\<lambda>i. list_ex (\<lambda>j. names ! i = names ! j) [Suc i..<length names])
                    [0..<length names]
      \<longleftrightarrow> (\<exists>i<length names. \<exists>j<length names. i < j \<and> names ! i = names ! j)"
    unfolding list_ex_iff by (simp add: Bex_def) (metis Suc_leI Suc_le_lessD)
  ultimately show ?thesis by simp
qed

lemma TupleDesc_Inr_iff:
  "TupleDesc types names = Inr td \<longleftrightarrow>
     distinct names \<and> length types = length names
       \<and> td = Schema types names (map_of (zip names [0..<length names]))"
  unfolding TupleDesc_def dup_loop_iff by auto

lemma collision_loop_iff:
  "n1 = length ns1 \<Longrightarrow> n2 = length ns2 \<Longrightarrow>
   list_ex (\<lambda>i. list_ex (\<lambda>j. ns1 ! i = ns2 ! j) [0..<n2]) [0..<n1]
     \<longleftrightarrow> set ns1 \<inter> set ns2 \<noteq> {}"
  unfolding list_ex_iff by (simp add: Bex_def disjoint_iff in_set_conv_nth) metis

text \<open>
  C8. When both schemas are well formed (each is what the constructor returned for its
  types and names) and their names are pairwise disjoint, \<open>merge\<close> returns a schema
  whose types and names are those of the first schema followed by those of the second.
  When some name occurs in both, wherever it stands and whatever the types are,
  \<open>merge\<close> throws \<^verbatim>\<open>invalid_argument\<close>.
\<close>

theorem merge_appends_or_fails:
  assumes "TupleDesc tys1 ns1 = Inr td1" and "TupleDesc tys2 ns2 = Inr td2"
  shows "(set ns1 \<inter> set ns2 = {} \<longrightarrow>
            (\<exists>td. merge td1 td2 = Inr td \<and> tupleTypes td = tys1 @ tys2
                    \<and> tupleNames td = ns1 @ ns2))
       \<and> (set ns1 \<inter> set ns2 \<noteq> {} \<longrightarrow> merge td1 td2 = Inl invalid_argument)"
proof -
  from assms have d1: "distinct ns1" "length tys1 = length ns1"
    and td1: "td1 = Schema tys1 ns1 (map_of (zip ns1 [0..<length ns1]))"
    and d2: "distinct ns2" "length tys2 = length ns2"
    and td2: "td2 = Schema tys2 ns2 (map_of (zip ns2 [0..<length ns2]))"
    by (simp_all add: TupleDesc_Inr_iff)
  have coll: "list_ex (\<lambda>i. list_ex (\<lambda>j. tupleNames td1 ! i = tupleNames td2 ! j)
                 [0..<TupleDesc_size td2]) [0..<TupleDesc_size td1]
              \<longleftrightarrow> set ns1 \<inter> set ns2 \<noteq> {}"
    using d1 d2 by (simp add: td1 td2 TupleDesc_size_def collision_loop_iff)
  have tys: "map (\<lambda>i. tupleTypes td1 ! i) [0..<TupleDesc_size td1]
                @ map (\<lambda>i. tupleTypes td2 ! i) [0..<TupleDesc_size td2] = tys1 @ tys2"
    by (simp add: td1 td2 TupleDesc_size_def map_nth)
  have ns: "map (\<lambda>i. tupleNames td1 ! i) [0..<TupleDesc_size td1]
                @ map (\<lambda>i. tupleNames td2 ! i) [0..<TupleDesc_size td2] = ns1 @ ns2"
    using d1 d2 by (simp add: td1 td2 TupleDesc_size_def map_nth)
  show ?thesis
  proof (intro conjI impI)
    assume dis: "set ns1 \<inter> set ns2 = {}"
    then have "distinct (ns1 @ ns2)" using d1 d2 by simp
    then have "TupleDesc (tys1 @ tys2) (ns1 @ ns2)
        = Inr (Schema (tys1 @ tys2) (ns1 @ ns2)
                 (map_of (zip (ns1 @ ns2) [0..<length (ns1 @ ns2)])))"
      using d1 d2 by (simp add: TupleDesc_Inr_iff)
    then show "\<exists>td. merge td1 td2 = Inr td \<and> tupleTypes td = tys1 @ tys2
                    \<and> tupleNames td = ns1 @ ns2"
      using dis coll unfolding merge_def tys ns by simp
  next
    assume "set ns1 \<inter> set ns2 \<noteq> {}"
    then show "merge td1 td2 = Inl invalid_argument"
      using coll unfolding merge_def by simp
  qed
qed

theorem merge_appends_or_fails_witness:
  "merge (Schema [t_INT] [''id''] (map_of (zip [''id''] [0..<1])))
         (Schema [t_CHAR] [''name''] (map_of (zip [''name''] [0..<1])))
     \<noteq> Inl invalid_argument
   \<and> merge (Schema [t_INT] [''id''] (map_of (zip [''id''] [0..<1])))
           (Schema [t_CHAR] [''id''] (map_of (zip [''id''] [0..<1])))
     = Inl invalid_argument"
proof -
  have a: "TupleDesc [t_INT] [''id''] = Inr (Schema [t_INT] [''id''] (map_of (zip [''id''] [0..<1])))"
    by (simp add: TupleDesc_def)
  have b: "TupleDesc [t_CHAR] [''name''] = Inr (Schema [t_CHAR] [''name''] (map_of (zip [''name''] [0..<1])))"
    by (simp add: TupleDesc_def)
  have c: "TupleDesc [t_CHAR] [''id''] = Inr (Schema [t_CHAR] [''id''] (map_of (zip [''id''] [0..<1])))"
    by (simp add: TupleDesc_def)
  show ?thesis
    using merge_appends_or_fails [OF a b] merge_appends_or_fails [OF a c] by auto
qed

section \<open>Offsets of fields\<close>

lemma offset_loop_upt:
  "j \<le> length tys \<Longrightarrow> i \<le> j \<Longrightarrow>
   offset_loop cs tys [i..<j] acc = Inr (acc + sum_list (map (type_size cs) (take (j - i) (drop i tys))))"
proof (induction "j - i" arbitrary: i acc)
  case 0
  then show ?case by simp
next
  case (Suc n)
  then have lt: "i < j" "i < length tys" by simp_all
  have u: "[i..<j] = i # [Suc i..<j]" using lt by (simp add: upt_conv_Cons)
  have n: "n = j - Suc i" using Suc.hyps(2) by simp
  have d: "take (j - i) (drop i tys) = tys ! i # take (j - Suc i) (drop (Suc i) tys)"
    using lt by (metis Cons_nth_drop_Suc Suc.hyps(2) n take_Suc_Cons)
  show ?case
    using Suc.hyps(1)[OF n, of "acc + type_size cs (tys ! i)"] Suc.prems lt
    by (simp add: u d)
qed

lemma offset_loop_overrun:
  "length tys < j \<Longrightarrow> i \<le> length tys \<Longrightarrow> offset_loop cs tys [i..<j] acc = Inl out_of_range"
proof (induction "length tys - i" arbitrary: i acc)
  case 0
  then have "[i..<j] = i # [Suc i..<j]" by (simp add: upt_conv_Cons)
  then show ?case using 0 by simp
next
  case (Suc n)
  then have "[i..<j] = i # [Suc i..<j]" by (simp add: upt_conv_Cons)
  moreover have "offset_loop cs tys [Suc i..<j] (acc + type_size cs (tys ! i)) = Inl out_of_range"
    using Suc.hyps(1)[of "Suc i"] Suc.hyps(2) Suc.prems by simp
  ultimately show ?case using Suc by simp
qed

lemma offset_of_in_range:
  assumes "index < length (tupleTypes td)"
  shows "offset_of cs td index = Inr (sum_list (map (type_size cs) (take index (tupleTypes td))))"
proof (cases "index = 0")
  case True
  then show ?thesis by (simp add: offset_of_def)
next
  case False
  then have "\<not> index > size_minus_1 (length (tupleTypes td))"
    using assms by (auto simp: size_minus_1_def)
  then show ?thesis
    using False assms offset_loop_upt[of index "tupleTypes td" 0 cs 0]
    by (simp add: offset_of_def)
qed

lemma offset_of_out_of_range:
  assumes "length (tupleTypes td) \<le> index" and "0 < index"
  shows "offset_of cs td index = Inl out_of_range"
proof (cases "index > size_minus_1 (length (tupleTypes td))")
  case True
  then show ?thesis using assms by (simp add: offset_of_def)
next
  case False
  then have "tupleTypes td = []"
    using assms by (auto simp: size_minus_1_def split: if_splits)
  then show ?thesis
    using False assms offset_loop_overrun[of "tupleTypes td" index 0 cs 0]
    by (simp add: offset_of_def)
qed

text \<open>
  C9. Inside the range of the schema \<open>offset_of\<close> returns the sum of the widths of the
  fields before the index (\<open>offset_of_in_range\<close>), and a positive index outside the
  range throws (\<open>offset_of_out_of_range\<close>). Index 0 returns before the range is
  looked at: on the schema without fields, which the constructor accepts, \<open>offset_of\<close>
  returns 0 for index 0 although the schema has no field 0.
\<close>

theorem offset_of_empty_schema_returns:
  "TupleDesc [] [] = Inr (Schema [] [] Map.empty)
   \<and> TupleDesc_size (Schema [] [] Map.empty) = 0
   \<and> offset_of cs (Schema [] [] Map.empty) 0 = Inr 0"
  by (simp add: TupleDesc_def TupleDesc_size_def offset_of_def)

section \<open>Deserialized tuples fit their schema\<close>

lemma holds_deserialize_loop:
  "map holds (deserialize_loop cs beyond m tys p i) = tys"
proof (induction tys arbitrary: p i)
  case Nil
  then show ?case by simp
next
  case (Cons ty tys)
  show ?case
    by (cases ty) (simp_all only: deserialize_loop.simps list.map holds.simps Cons.IH)
qed

lemma compatible_iff:
  "compatible td t \<longleftrightarrow> map holds (fields t) = tupleTypes td"
proof -
  have "map holds (fields t) = tupleTypes td \<longleftrightarrow>
          length (fields t) = length (tupleTypes td)
            \<and> (\<forall>i<length (fields t). holds (fields t ! i) = tupleTypes td ! i)"
    by (simp add: list_eq_iff_nth_eq)
  moreover have "compatible td t \<longleftrightarrow>
          length (fields t) = length (tupleTypes td)
            \<and> (\<forall>i<length (fields t). holds (fields t ! i) = tupleTypes td ! i)"
    by (simp add: compatible_def Tuple_size_def list_all_iff Ball_def)
  ultimately show ?thesis by simp
qed

text \<open>
  C10. Whatever the bytes of the buffer are, the tuple that \<open>deserialize\<close> builds
  has as many fields as the schema has types, the alternative held by each field is the
  type the schema declares at that position, and so the tuple is compatible with the
  schema.
\<close>

theorem deserialize_compatible:
  "Tuple_size (deserialize cs beyond td m p) = TupleDesc_size td
   \<and> map holds (fields (deserialize cs beyond td m p)) = tupleTypes td
   \<and> compatible td (deserialize cs beyond td m p)"
proof -
  have h: "map holds (fields (deserialize cs beyond td m p)) = tupleTypes td"
    by (simp add: deserialize_def holds_deserialize_loop)
  then have "length (fields (deserialize cs beyond td m p)) = length (tupleTypes td)"
    by (metis length_map)
  with h show ?thesis
    by (simp add: compatible_iff Tuple_size_def TupleDesc_size_def)
qed

theorem deserialize_compatible_witness:
  "compatible (Schema [t_INT, t_CHAR] [''id'', ''name''] Map.empty)
     (deserialize 4 nothing_beyond (Schema [t_INT, t_CHAR] [''id'', ''name''] Map.empty)
        zero_memory 0)"
  using deserialize_compatible [of 4 nothing_beyond
      "Schema [t_INT, t_CHAR] [''id'', ''name''] Map.empty" zero_memory 0]
  by simp

section \<open>The codec: serialize, then deserialize\<close>

lemma length_to_bytes [simp]: "length (to_bytes n w) = n"
  by (simp add: to_bytes_def)

lemma length_c_str_read [simp]: "length (c_str_read s behind n) = n"
  by (simp add: c_str_read_def)

lemma length_load [simp]: "length (load m a n) = n"
  by (simp add: load_def)

lemma load_store_same: "load (store m a bs) a (length bs) = bs"
  by (rule nth_equalityI) (simp_all add: load_def store_def)

lemma store_outside: "k < a \<or> a + length bs \<le> k \<Longrightarrow> store m a bs k = m k"
  by (auto simp: store_def)

lemma load_cong: "(\<And>k. a \<le> k \<Longrightarrow> k < a + n \<Longrightarrow> m k = m' k) \<Longrightarrow> load m a n = load m' a n"
  by (simp add: load_def)

lemma from_to_bytes:
  "LENGTH('a) \<le> 8 * n \<Longrightarrow> from_bytes (to_bytes n w) = (w :: 'a::len word)"
proof (rule bit_word_eqI)
  fix k
  assume len: "LENGTH('a) \<le> 8 * n" and k: "k < LENGTH('a)"
  then have d: "k div 8 < n" by simp
  have "bit (from_bytes (to_bytes n w) :: 'a word) k
      \<longleftrightarrow> bit (horner_sum uint (2 ^ 8) (to_bytes n w)) k"
    using k by (simp add: from_bytes_def bit_word_of_int_iff)
  also have "\<dots> \<longleftrightarrow> bit (to_bytes n w ! (k div 8)) (k mod 8)"
    using d bit_horner_sum_uint_exp_iff [where ?'a = 8, of "to_bytes n w" k] by simp
  also have "\<dots> \<longleftrightarrow> bit w (8 * (k div 8) + k mod 8)"
    using d by (simp add: to_bytes_def bit_simps)
  finally show "bit (from_bytes (to_bytes n w) :: 'a word) k \<longleftrightarrow> bit w k"
    by simp
qed

lemma from_to_bytes_int: "from_bytes (to_bytes INT_SIZE w) = (w :: 32 word)"
  by (rule from_to_bytes) (simp add: INT_SIZE_def)

lemma from_to_bytes_double: "from_bytes (to_bytes DOUBLE_SIZE w) = (w :: 64 word)"
  by (rule from_to_bytes) (simp add: DOUBLE_SIZE_def)

lemma c_str_read_short:
  assumes "length s < n"
  shows "c_str_read s behind n = s @ 0 # map behind [0..<n - Suc (length s)]"
proof (rule nth_equalityI)
  show "length (c_str_read s behind n) = length (s @ 0 # map behind [0..<n - Suc (length s)])"
    using assms by simp
next
  fix i
  assume "i < length (c_str_read s behind n)"
  then have i: "i < n" by simp
  consider "i < length s" | "i = length s" | "length s < i" by linarith
  then show "c_str_read s behind n ! i = (s @ 0 # map behind [0..<n - Suc (length s)]) ! i"
  proof cases
    case 1
    then show ?thesis using i by (simp add: c_str_read_def nth_append)
  next
    case 2
    then show ?thesis using i by (simp add: c_str_read_def nth_append)
  next
    case 3
    then obtain j where j: "i = Suc (length s) + j" by (metis Suc_leI le_Suc_ex)
    then show ?thesis using i by (simp add: c_str_read_def nth_append)
  qed
qed

lemma c_str_read_long:
  assumes "n \<le> length s"
  shows "c_str_read s behind n = take n s"
  using assms by (intro nth_equalityI) (auto simp: c_str_read_def)

lemma c_string_c_str_read:
  assumes "length s < n" and "0 \<notin> set s"
  shows "c_string (c_str_read s behind n) beyond = s"
proof -
  have "takeWhile (\<lambda>b. b \<noteq> 0) (s @ 0 # r) = s" for r
    using assms(2) by (induction s) auto
  then show ?thesis
    using assms(1) by (simp add: c_string_def c_str_read_short)
qed


text \<open>What serialize writes stays inside the tuple's own byte range.\<close>

lemma serialize_loop_frame:
  "a < p + off \<or> p + off + sum_list (map (type_size cs) tys) \<le> a \<Longrightarrow>
   snd (serialize_loop cs behind t p tys off i m) a = m a"
proof (induction tys arbitrary: off i m)
  case Nil
  then show ?case by simp
next
  case (Cons ty tys)
  have step: "snd (serialize_loop cs behind t p tys (off + type_size cs ty) (Suc i)
                     (store m (p + off) bs)) a = m a"
    if "length bs = type_size cs ty" for bs
  proof -
    have "snd (serialize_loop cs behind t p tys (off + type_size cs ty) (Suc i)
                 (store m (p + off) bs)) a = store m (p + off) bs a"
      using Cons.prems by (intro Cons.IH) auto
    also have "\<dots> = m a"
      using Cons.prems that by (intro store_outside) auto
    finally show ?thesis .
  qed
  show ?case
  proof (cases ty)
    case t_INT
    then show ?thesis
      using step [of "to_bytes INT_SIZE w" for w]
      by (auto split: sum.splits field_t.splits)
  next
    case t_DOUBLE
    then show ?thesis
      using step [of "to_bytes DOUBLE_SIZE w" for w]
      by (auto split: sum.splits field_t.splits)
  next
    case t_CHAR
    then show ?thesis
      using step [of "c_str_read s (behind i) cs" for s]
      by (auto split: sum.splits field_t.splits)
  qed
qed

lemma roundtrip_loop:
  assumes "\<forall>k<length tys. i + k < length (fields t) \<and> holds (fields t ! (i + k)) = tys ! k
              \<and> (\<forall>s. fields t ! (i + k) = StringField s \<longrightarrow> length s < cs \<and> 0 \<notin> set s)"
  shows "fst (serialize_loop cs behind t p tys off i m) = Inr ()
       \<and> deserialize_loop cs beyond (snd (serialize_loop cs behind t p tys off i m)) tys (p + off) i
           = take (length tys) (drop i (fields t))"
  using assms
proof (induction tys arbitrary: off i m)
  case Nil
  then show ?case by simp
next
  case (Cons ty tys)
  let ?f = "fields t ! i"
  from Cons.prems have i: "i < length (fields t)" and ty: "holds ?f = ty"
    and short: "\<forall>s. ?f = StringField s \<longrightarrow> length s < cs \<and> 0 \<notin> set s"
    by force+
  have rest: "\<forall>k<length tys. Suc i + k < length (fields t)
                \<and> holds (fields t ! (Suc i + k)) = tys ! k
                \<and> (\<forall>s. fields t ! (Suc i + k) = StringField s \<longrightarrow> length s < cs \<and> 0 \<notin> set s)"
  proof (intro allI impI)
    fix k assume "k < length tys"
    then have "Suc k < length (ty # tys)" by simp
    from Cons.prems [rule_format, OF this] show "Suc i + k < length (fields t)
                \<and> holds (fields t ! (Suc i + k)) = tys ! k
                \<and> (\<forall>s. fields t ! (Suc i + k) = StringField s \<longrightarrow> length s < cs \<and> 0 \<notin> set s)" by simp
  qed
  have gf: "get_field t i = Inr ?f" using i by (simp add: get_field_def)
  have tk: "take (length (ty # tys)) (drop i (fields t))
              = ?f # take (length tys) (drop (Suc i) (fields t))"
    using i by (simp add: Cons_nth_drop_Suc [symmetric])
  have rb: "load (snd (serialize_loop cs behind t p tys (off + length bs) (Suc i)
                           (store m (p + off) bs))) (p + off) (length bs) = bs" for bs
  proof -
    have "load (snd (serialize_loop cs behind t p tys (off + length bs) (Suc i)
                       (store m (p + off) bs))) (p + off) (length bs)
          = load (store m (p + off) bs) (p + off) (length bs)"
      by (rule load_cong) (simp add: serialize_loop_frame)
    then show ?thesis by (simp add: load_store_same)
  qed
  show ?case
  proof (cases ?f)
    case (IntField w)
    then have "ty = t_INT" using ty by simp
    then show ?thesis
      using IntField gf tk rb [of "to_bytes INT_SIZE w"]
        Cons.IH [OF rest, of "off + INT_SIZE" "store m (p + off) (to_bytes INT_SIZE w)"]
      by (simp add: from_to_bytes_int add.assoc)
  next
    case (DoubleField w)
    then have "ty = t_DOUBLE" using ty by simp
    then show ?thesis
      using DoubleField gf tk rb [of "to_bytes DOUBLE_SIZE w"]
        Cons.IH [OF rest, of "off + DOUBLE_SIZE" "store m (p + off) (to_bytes DOUBLE_SIZE w)"]
      by (simp add: from_to_bytes_double add.assoc)
  next
    case (StringField s)
    then have "ty = t_CHAR" using ty by simp
    moreover have "length s < cs" "0 \<notin> set s"
      using short StringField by simp_all
    ultimately show ?thesis
      using StringField gf tk rb [of "c_str_read s (behind i) cs"]
        Cons.IH [OF rest, of "off + cs" "store m (p + off) (c_str_read s (behind i) cs)"]
      by (simp add: c_string_c_str_read add.assoc)
  qed
qed

text \<open>
  C2, as amended. For a tuple compatible with the schema in which every text is shorter
  than the fixed width and holds no zero byte, \<open>serialize\<close> completes and
  \<open>deserialize\<close> of the written buffer returns the tuple itself, whatever the integer
  and floating-point fields hold, wherever in memory the buffer lies and whatever lies
  around the strings.
\<close>

theorem serialize_deserialize_short_text:
  assumes "compatible td t"
    and "\<forall>s. StringField s \<in> set (fields t) \<longrightarrow> length s < cs \<and> 0 \<notin> set s"
  shows "fst (serialize cs behind td m p t) = Inr ()
       \<and> deserialize cs beyond td (snd (serialize cs behind td m p t)) p = t"
proof -
  from assms(1) have len: "length (fields t) = length (tupleTypes td)"
    and tys: "\<forall>k<length (tupleTypes td). holds (fields t ! k) = tupleTypes td ! k"
    by (simp_all add: compatible_iff list_eq_iff_nth_eq)
  have "\<forall>s. fields t ! k = StringField s \<longrightarrow> length s < cs \<and> 0 \<notin> set s"
    if "k < length (fields t)" for k
    using assms(2) nth_mem [OF that] by metis
  then have "\<forall>k<length (tupleTypes td). 0 + k < length (fields t)
               \<and> holds (fields t ! (0 + k)) = tupleTypes td ! k
               \<and> (\<forall>s. fields t ! (0 + k) = StringField s \<longrightarrow> length s < cs \<and> 0 \<notin> set s)"
    using len tys by simp
  from roundtrip_loop [OF this, of behind p 0 m beyond] show ?thesis
    using len by (simp add: serialize_def deserialize_def)
qed


lemma name_schema_constructed: "TupleDesc [t_CHAR] [''name''] = Inr name_schema"
  by (simp add: TupleDesc_def name_schema_def)

lemma serialize_text_bytes:
  "fst (serialize cs behind name_schema m p (Tuple [StringField s])) = Inr ()
   \<and> load (snd (serialize cs behind name_schema m p (Tuple [StringField s]))) p cs
       = c_str_read s (behind 0) cs"
  using load_store_same [of m p "c_str_read s (behind 0) cs"]
  by (simp add: serialize_def name_schema_def get_field_def)

lemma deserialize_text:
  "deserialize cs beyond name_schema
     (snd (serialize cs behind name_schema m p (Tuple [StringField s]))) p
   = Tuple [StringField (c_string (c_str_read s (behind 0) cs) (beyond 0))]"
  using serialize_text_bytes [of cs behind m p s]
  by (simp add: deserialize_def name_schema_def)

lemma c_string_replicate:
  "(x::byte) \<noteq> 0 \<Longrightarrow> c_string (replicate n x) ys = replicate n x @ takeWhile (\<lambda>b. b \<noteq> 0) ys"
  by (induction n) (simp_all add: c_string_def)

text \<open>
  The round trip as claimed for every text fails: a text of 65 bytes comes back cut (with
  a fixed width of 32 as with 64), a text with a zero byte inside comes back cut at that
  byte, and a text of exactly the fixed width comes back with the bytes that follow the
  temporary array appended when the first of them is not zero.
\<close>

theorem roundtrip_counterexample:
  "compatible name_schema (Tuple [StringField (replicate 65 97)])
   \<and> deserialize 32 nothing_beyond name_schema
        (snd (serialize 32 nothing_behind name_schema zero_memory 0
                (Tuple [StringField (replicate 65 97)]))) 0
      \<noteq> Tuple [StringField (replicate 65 97)]
   \<and> deserialize 64 nothing_beyond name_schema
        (snd (serialize 64 nothing_behind name_schema zero_memory 0
                (Tuple [StringField (replicate 65 97)]))) 0
      \<noteq> Tuple [StringField (replicate 65 97)]
   \<and> compatible name_schema (Tuple [StringField [97, 0, 98]])
   \<and> deserialize 32 nothing_beyond name_schema
        (snd (serialize 32 nothing_behind name_schema zero_memory 0
                (Tuple [StringField [97, 0, 98]]))) 0
      \<noteq> Tuple [StringField [97, 0, 98]]
   \<and> compatible name_schema (Tuple [StringField (replicate 32 97)])
   \<and> deserialize 32 one_beyond name_schema
        (snd (serialize 32 nothing_behind name_schema zero_memory 0
                (Tuple [StringField (replicate 32 97)]))) 0
      \<noteq> Tuple [StringField (replicate 32 97)]"
proof -
  have long: "deserialize cs nothing_beyond name_schema
        (snd (serialize cs nothing_behind name_schema zero_memory 0
                (Tuple [StringField (replicate 65 97)]))) 0
      \<noteq> Tuple [StringField (replicate 65 97)]" if "cs \<le> 65" "cs \<noteq> 65" for cs
  proof -
    have "c_string (c_str_read (replicate 65 97) (nothing_behind 0) cs) (nothing_beyond 0)
            = replicate cs 97"
      using that by (simp add: c_str_read_long c_string_replicate nothing_beyond_def min_def)
    moreover have "replicate cs (97::byte) \<noteq> replicate 65 97"
      using that by (metis length_replicate)
    ultimately show ?thesis by (simp add: deserialize_text)
  qed
  have zero: "c_string (c_str_read [97, 0, 98] (nothing_behind 0) 32) (nothing_beyond 0) = [97]"
    by (simp add: c_str_read_short c_string_def)
  have exact: "c_string (c_str_read (replicate 32 97) (nothing_behind 0) 32) (one_beyond 0)
                 = replicate 32 97 @ [98]"
    by (simp add: c_str_read_long c_string_replicate one_beyond_def)
  have ne: "replicate 32 (97::byte) @ [98] \<noteq> replicate 32 97"
    by simp
  have compat: "compatible name_schema (Tuple [StringField s])" for s
    by (simp add: compatible_iff name_schema_def)
  show ?thesis
    using long [of 32] long [of 64] zero exact ne
    by (simp add: deserialize_text compat)
qed

theorem serialize_deserialize_short_text_witness:
  "fst (serialize 4 nothing_behind mixed_schema zero_memory 0
          (Tuple [IntField 7, DoubleField 3, StringField [97, 98]])) = Inr ()
   \<and> deserialize 4 nothing_beyond mixed_schema
        (snd (serialize 4 nothing_behind mixed_schema zero_memory 0
                (Tuple [IntField 7, DoubleField 3, StringField [97, 98]]))) 0
      = Tuple [IntField 7, DoubleField 3, StringField [97, 98]]"
proof -
  have c: "compatible mixed_schema (Tuple [IntField 7, DoubleField 3, StringField [97, 98]])"
    by (simp add: compatible_iff mixed_schema_def)
  have s: "\<forall>s. StringField s \<in> set (fields (Tuple [IntField 7, DoubleField 3, StringField [97, 98]]))
             \<longrightarrow> length s < 4 \<and> 0 \<notin> set s"
    by simp
  show ?thesis
    using serialize_deserialize_short_text [OF c s] by simp
qed

text \<open>
  C3. \<open>serialize\<close> writes exactly the fixed width for a text field
  (\<open>serialize_text_bytes\<close>) and cuts a longer text to the fixed width
  (\<open>c_str_read_long\<close>), but a shorter text is not padded: for the text \<open>ab\<close> and a
  fixed width of 32, the 29 bytes after the terminator are the bytes that the memory
  holds behind the string.
\<close>

theorem serialize_short_text_copies_memory_behind:
  "compatible name_schema (Tuple [StringField [97, 98]])
   \<and> fst (serialize 32 behind name_schema m p (Tuple [StringField [97, 98]])) = Inr ()
   \<and> load (snd (serialize 32 behind name_schema m p (Tuple [StringField [97, 98]]))) p 32
       = [97, 98, 0] @ map (behind 0) [0..<29]"
  using serialize_text_bytes [of 32 behind m p "[97, 98]"]
  by (simp add: c_str_read_short compatible_iff name_schema_def)

section \<open>The capacity of a page\<close>

lemma HeapPage_sel [simp]:
  "hp_td (HeapPage cs P td) = td"
  "header (HeapPage cs P td) = 0"
  by (simp_all add: HeapPage_def Let_def)

lemma HeapPage_layout:
  "capacity (HeapPage cs P td) = (P * 8) div (TupleDesc_length cs td * 8 + 1)"
  "data (HeapPage cs P td)
     = P - (P * 8) div (TupleDesc_length cs td * 8 + 1) * TupleDesc_length cs td"
  by (simp_all add: HeapPage_def Let_def)

lemma capacity_bits_fit: "(P * 8) div (T * 8 + 1) * (T * 8 + 1) \<le> P * (8::nat)"
  by (rule div_times_less_eq_dividend)

lemma capacity_data_fits: "(P * 8) div (T * 8 + 1) * T \<le> (P::nat)"
proof -
  have "(P * 8) div (T * 8 + 1) * T * 8 \<le> (P * 8) div (T * 8 + 1) * (T * 8 + 1)"
    by (simp only: mult.assoc mult_le_mono2 le_add1)
  also have "\<dots> \<le> P * 8" by (rule capacity_bits_fit)
  finally show ?thesis by simp
qed

lemma capacity_header_holds_bits:
  "(P * 8) div (T * 8 + 1) \<le> 8 * (P - (P * 8) div (T * 8 + 1) * (T::nat))"
proof -
  let ?c = "(P * 8) div (T * 8 + 1)"
  have "?c * (T * 8 + 1) \<le> P * 8" by (rule capacity_bits_fit)
  moreover have "?c * (T * 8 + 1) = ?c + 8 * (?c * T)" by (simp only: algebra_simps)
  ultimately have "?c + 8 * (?c * T) \<le> 8 * P" by (simp only: mult.commute)
  then have "?c \<le> 8 * P - 8 * (?c * T)" by linarith
  then show ?thesis by (simp only: diff_mult_distrib2)
qed

lemma capacity_largest: "c * (T * 8 + 1) \<le> P * 8 \<Longrightarrow> c \<le> (P * 8) div (T * 8 + (1::nat))"
  by (simp add: less_eq_div_iff_mult_less_eq)

text \<open>
  C4. For a schema of positive tuple width \<open>T\<close> and a page of \<open>P\<close> bytes, the
  capacity the constructor computes is \<open>P * 8 div (T * 8 + 1)\<close>; the data region
  starts \<open>P - capacity * T\<close> bytes after the header, which starts the page; the slots
  fit (\<open>capacity * T \<le> P\<close>), so with \<open>headerBytes = P - capacity * T\<close> the sum
  \<open>capacity * T + headerBytes\<close> does not exceed \<open>P\<close>, and no larger slot count
  satisfies that inequality. The capacity is also the largest slot count for which
  one header bit and \<open>T\<close> data bytes per slot fit in the \<open>P * 8\<close> bits of the page.
\<close>

theorem capacity_fits_and_is_largest:
  assumes "0 < TupleDesc_length cs td"
  shows "capacity (HeapPage cs P td) = (P * 8) div (TupleDesc_length cs td * 8 + 1)
       \<and> data (HeapPage cs P td) - header (HeapPage cs P td)
           = P - capacity (HeapPage cs P td) * TupleDesc_length cs td
       \<and> header (HeapPage cs P td) = 0
       \<and> capacity (HeapPage cs P td) * TupleDesc_length cs td \<le> P
       \<and> capacity (HeapPage cs P td) * TupleDesc_length cs td
           + (P - capacity (HeapPage cs P td) * TupleDesc_length cs td) \<le> P
       \<and> (\<forall>c. c * TupleDesc_length cs td
                 + (P - capacity (HeapPage cs P td) * TupleDesc_length cs td) \<le> P
               \<longrightarrow> c \<le> capacity (HeapPage cs P td))
       \<and> capacity (HeapPage cs P td) * (TupleDesc_length cs td * 8 + 1) \<le> P * 8
       \<and> (\<forall>c. c * (TupleDesc_length cs td * 8 + 1) \<le> P * 8
               \<longrightarrow> c \<le> capacity (HeapPage cs P td))"
proof -
  let ?T = "TupleDesc_length cs td"
  let ?c = "(P * 8) div (?T * 8 + 1)"
  have fit: "?c * ?T \<le> P" by (rule capacity_data_fits)
  have "c \<le> ?c" if "c * ?T + (P - ?c * ?T) \<le> P" for c
  proof -
    from that fit have "c * ?T \<le> ?c * ?T" by linarith
    with assms show ?thesis by simp
  qed
  moreover have "c \<le> ?c" if "c * (?T * 8 + 1) \<le> P * 8" for c
    using that by (rule capacity_largest)
  moreover have "?c * (?T * 8 + 1) \<le> P * 8" by (rule capacity_bits_fit)
  ultimately show ?thesis using fit by (simp add: HeapPage_layout)
qed

theorem capacity_fits_and_is_largest_witness:
  "capacity (HeapPage 32 4096 id_name_schema) = 113
   \<and> data (HeapPage 32 4096 id_name_schema) = 28
   \<and> (113::nat) * 36 + 28 \<le> 4096
   \<and> \<not> (114::nat) * (36 * 8 + 1) \<le> 4096 * 8"
proof -
  have T: "TupleDesc_length 32 id_name_schema = 36"
    by (simp add: TupleDesc_length_def id_name_schema_def INT_SIZE_def)
  then have "0 < TupleDesc_length 32 id_name_schema" by simp
  from capacity_fits_and_is_largest [OF this, of 4096] show ?thesis
    by (simp add: T HeapPage_layout)
qed

section \<open>Occupancy of the slots of a page\<close>

lemma HeapPage_empty_iff:
  "HeapPage_empty hp m s \<longleftrightarrow> \<not> bit (m (header hp + s div 8)) (7 - s mod 8)"
  by (simp add: HeapPage_empty_def Let_def push_bit_of_1 and_exp_eq_0_iff_not_bit)

lemma bit_set_byte:
  "k < 8 \<Longrightarrow> bit ((b::byte) OR 2 ^ k) j \<longleftrightarrow> bit b j \<or> j = k"
  by (auto simp: bit_simps)

lemma bit_clear_byte:
  "k < 8 \<Longrightarrow> bit ((b::byte) AND NOT (2 ^ k)) j \<longleftrightarrow> bit b j \<and> j \<noteq> k"
  by (auto simp: bit_simps dest: bit_imp_le_length)

lemma slot_bit_eq:
  "s div 8 = r div 8 \<Longrightarrow> (7::nat) - s mod 8 = 7 - r mod 8 \<longleftrightarrow> s = r"
proof -
  assume d: "s div 8 = r div 8"
  have "s mod 8 < 8" "r mod 8 < 8" by simp_all
  then have "(7::nat) - s mod 8 = 7 - r mod 8 \<longleftrightarrow> s mod 8 = r mod 8" by linarith
  also have "\<dots> \<longleftrightarrow> s = r" using d by (metis div_mult_mod_eq)
  finally show ?thesis .
qed

text \<open>Setting or clearing the header bit of one slot changes the state of that slot only.\<close>

lemma empty_after_set:
  "HeapPage_empty hp (m(header hp + s div 8 := m (header hp + s div 8) OR push_bit (7 - s mod 8) 1)) r
     \<longleftrightarrow> HeapPage_empty hp m r \<and> r \<noteq> s"
proof (cases "r div 8 = s div 8")
  case True
  then show ?thesis
    using slot_bit_eq [of r s] by (auto simp: HeapPage_empty_iff bit_set_byte)
next
  case False
  then show ?thesis by (auto simp: HeapPage_empty_iff)
qed

lemma empty_after_clear:
  "HeapPage_empty hp (m(header hp + s div 8 := m (header hp + s div 8) AND NOT (push_bit (7 - s mod 8) 1))) r
     \<longleftrightarrow> HeapPage_empty hp m r \<or> r = s"
proof (cases "r div 8 = s div 8")
  case True
  then show ?thesis
    using slot_bit_eq [of r s] by (auto simp: HeapPage_empty_iff bit_clear_byte)
next
  case False
  then show ?thesis by (auto simp: HeapPage_empty_iff)
qed

lemma insertTuple_cases:
  "HeapPage_insertTuple cs behind hp m t = (Inr True, m') \<Longrightarrow>
     insert_loop hp m 0 \<noteq> capacity hp
     \<and> (\<exists>m1. serialize cs behind (hp_td hp) m
                 (data hp + insert_loop hp m 0 * TupleDesc_length cs (hp_td hp)) t = (Inr (), m1)
             \<and> m' = m1(header hp + insert_loop hp m 0 div 8 :=
                     m1 (header hp + insert_loop hp m 0 div 8)
                       OR push_bit (7 - insert_loop hp m 0 mod 8) 1))"
  by (auto simp: HeapPage_insertTuple_def Let_def split: if_splits prod.splits sum.splits)

text \<open>
  C5. For every page: when \<open>insertTuple\<close> returns true, the slot its scan stopped at
  is occupied afterwards; when \<open>deleteTuple\<close> completes for a slot, that slot is empty
  afterwards; \<open>deleteTuple\<close> on an empty slot throws \<^verbatim>\<open>logic_error\<close> and leaves the
  page as it was, so deleting the same slot a second time throws; and \<^verbatim>\<open>logic_error\<close> with
  an unchanged page is the only way \<open>deleteTuple\<close> fails.
\<close>

theorem insert_delete_occupancy:
  "(HeapPage_insertTuple cs behind hp m t = (Inr True, m')
      \<longrightarrow> \<not> HeapPage_empty hp m' (insert_loop hp m 0))
   \<and> (HeapPage_deleteTuple hp m s = (Inr (), m') \<longrightarrow> HeapPage_empty hp m' s)
   \<and> (HeapPage_empty hp m s \<longrightarrow> HeapPage_deleteTuple hp m s = (Inl logic_error, m))
   \<and> (HeapPage_deleteTuple hp m s = (Inr (), m')
        \<longrightarrow> HeapPage_deleteTuple hp m' s = (Inl logic_error, m'))
   \<and> (\<forall>e. HeapPage_deleteTuple hp m s = (Inl e, m') \<longrightarrow> e = logic_error \<and> m' = m)"
proof (intro conjI impI allI)
  assume "HeapPage_insertTuple cs behind hp m t = (Inr True, m')"
  from insertTuple_cases [OF this] obtain m1 where
    "m' = m1(header hp + insert_loop hp m 0 div 8 :=
              m1 (header hp + insert_loop hp m 0 div 8)
                OR push_bit (7 - insert_loop hp m 0 mod 8) 1)"
    by blast
  then show "\<not> HeapPage_empty hp m' (insert_loop hp m 0)"
    by (simp only: empty_after_set) simp
next
  assume d: "HeapPage_deleteTuple hp m s = (Inr (), m')"
  then have "m' = m(header hp + s div 8 :=
                     m (header hp + s div 8) AND NOT (push_bit (7 - s mod 8) 1))"
    by (simp add: HeapPage_deleteTuple_def split: if_splits)
  then show e: "HeapPage_empty hp m' s"
    by (simp only: empty_after_clear) simp
  then show "HeapPage_deleteTuple hp m' s = (Inl logic_error, m')"
    by (simp add: HeapPage_deleteTuple_def)
next
  assume "HeapPage_empty hp m s"
  then show "HeapPage_deleteTuple hp m s = (Inl logic_error, m)"
    by (simp add: HeapPage_deleteTuple_def)
next
  fix e assume "HeapPage_deleteTuple hp m s = (Inl e, m')"
  then show "e = logic_error" "m' = m"
    by (auto simp: HeapPage_deleteTuple_def split: if_splits)
qed

section \<open>Insertion into a page\<close>

lemma fold_sizes: "fold (\<lambda>ty len. len + f ty) xs a = (a::nat) + sum_list (map f xs)"
  by (induction xs arbitrary: a) simp_all

lemma TupleDesc_length_sum:
  "TupleDesc_length cs td = sum_list (map (type_size cs) (tupleTypes td))"
  by (simp add: TupleDesc_length_def fold_sizes)

lemma serialize_frame:
  "a < p \<or> p + TupleDesc_length cs td \<le> a \<Longrightarrow> snd (serialize cs behind td m p t) a = m a"
  using serialize_loop_frame [of a p 0 cs "tupleTypes td" behind t 0 m]
  by (simp add: serialize_def TupleDesc_length_sum)

lemma serialize_loop_completes:
  assumes "\<forall>k<length tys. i + k < length (fields t) \<and> holds (fields t ! (i + k)) = tys ! k"
  shows "fst (serialize_loop cs behind t p tys off i m) = Inr ()"
  using assms
proof (induction tys arbitrary: off i m)
  case Nil
  then show ?case by simp
next
  case (Cons ty tys)
  from Cons.prems have i: "i < length (fields t)" and ty: "holds (fields t ! i) = ty"
    by force+
  have rest: "\<forall>k<length tys. Suc i + k < length (fields t)
                \<and> holds (fields t ! (Suc i + k)) = tys ! k"
  proof (intro allI impI)
    fix k assume "k < length tys"
    then have "Suc k < length (ty # tys)" by simp
    from Cons.prems [rule_format, OF this]
    show "Suc i + k < length (fields t) \<and> holds (fields t ! (Suc i + k)) = tys ! k"
      by simp
  qed
  have gf: "get_field t i = Inr (fields t ! i)" using i by (simp add: get_field_def)
  show ?case
  proof (cases "fields t ! i")
    case (IntField w)
    then have "ty = t_INT" using ty by simp
    then show ?thesis using IntField gf Cons.IH [OF rest] by simp
  next
    case (DoubleField w)
    then have "ty = t_DOUBLE" using ty by simp
    then show ?thesis using DoubleField gf Cons.IH [OF rest] by simp
  next
    case (StringField s)
    then have "ty = t_CHAR" using ty by simp
    then show ?thesis using StringField gf Cons.IH [OF rest] by simp
  qed
qed

lemma serialize_completes:
  assumes "compatible td t"
  shows "fst (serialize cs behind td m p t) = Inr ()"
proof -
  from assms have "length (fields t) = length (tupleTypes td)"
    and "\<forall>k<length (tupleTypes td). holds (fields t ! k) = tupleTypes td ! k"
    by (simp_all add: compatible_iff list_eq_iff_nth_eq)
  then have "\<forall>k<length (tupleTypes td). 0 + k < length (fields t)
               \<and> holds (fields t ! (0 + k)) = tupleTypes td ! k"
    by simp
  from serialize_loop_completes [OF this] show ?thesis by (simp add: serialize_def)
qed

lemma header_byte_below_data:
  assumes "s < capacity (HeapPage cs P td)"
  shows "header (HeapPage cs P td) + s div 8 < data (HeapPage cs P td)"
proof -
  have "capacity (HeapPage cs P td) \<le> 8 * data (HeapPage cs P td)"
    using capacity_header_holds_bits [of P "TupleDesc_length cs td"]
    by (simp add: HeapPage_layout)
  with assms have "s < 8 * data (HeapPage cs P td)" by linarith
  then show ?thesis by simp
qed

lemma insert_loop_finds:
  assumes "i \<le> s"
    and "\<forall>j. i \<le> j \<and> j < s \<longrightarrow> \<not> HeapPage_empty hp m j \<and> j < capacity hp"
    and "HeapPage_empty hp m s \<or> \<not> s < capacity hp"
  shows "insert_loop hp m i = s"
  using assms
proof (induction "s - i" arbitrary: i)
  case 0
  then have "i = s" by simp
  then show ?case using "0.prems"(3) by (subst insert_loop.simps) auto
next
  case (Suc n)
  then have "i < s" by simp
  then have "\<not> HeapPage_empty hp m i \<and> i < capacity hp" using Suc.prems(2) by simp
  moreover have "insert_loop hp m (Suc i) = s"
    using Suc by (intro Suc.hyps(1)) auto
  ultimately show ?case by (subst insert_loop.simps) simp
qed

lemma insertTuple_full:
  assumes "\<forall>j<capacity hp. \<not> HeapPage_empty hp m j"
  shows "HeapPage_insertTuple cs behind hp m t = (Inr False, m)"
proof -
  have "insert_loop hp m 0 = capacity hp"
    using assms by (intro insert_loop_finds) auto
  then show ?thesis by (simp add: HeapPage_insertTuple_def)
qed

lemma insertTuple_first_empty:
  assumes c: "compatible td t"
    and s: "s < capacity (HeapPage cs P td)"
    and e: "HeapPage_empty (HeapPage cs P td) m s"
    and b: "\<forall>j. j < s \<longrightarrow> \<not> HeapPage_empty (HeapPage cs P td) m j"
  shows "fst (HeapPage_insertTuple cs behind (HeapPage cs P td) m t) = Inr True
       \<and> (\<forall>j<capacity (HeapPage cs P td).
            HeapPage_empty (HeapPage cs P td)
              (snd (HeapPage_insertTuple cs behind (HeapPage cs P td) m t)) j
            \<longleftrightarrow> HeapPage_empty (HeapPage cs P td) m j \<and> j \<noteq> s)
       \<and> load (snd (HeapPage_insertTuple cs behind (HeapPage cs P td) m t))
            (data (HeapPage cs P td) + s * TupleDesc_length cs td) (TupleDesc_length cs td)
          = load (snd (serialize cs behind td m
                         (data (HeapPage cs P td) + s * TupleDesc_length cs td) t))
              (data (HeapPage cs P td) + s * TupleDesc_length cs td) (TupleDesc_length cs td)"
proof -
  let ?hp = "HeapPage cs P td"
  let ?T = "TupleDesc_length cs td"
  let ?p = "data ?hp + s * ?T"
  let ?h = "header ?hp + s div 8"
  have loop: "insert_loop ?hp m 0 = s"
    using s e b by (intro insert_loop_finds) auto
  obtain m1 where ser: "serialize cs behind td m ?p t = (Inr (), m1)"
    using serialize_completes [OF c, of cs behind m ?p] by (metis prod.collapse)
  let ?m' = "m1(?h := m1 ?h OR push_bit (7 - s mod 8) 1)"
  have m1: "m1 = snd (serialize cs behind td m ?p t)" by (simp add: ser)
  have ins: "HeapPage_insertTuple cs behind ?hp m t = (Inr True, ?m')"
    using s by (simp add: HeapPage_insertTuple_def loop ser)
  have hdr: "m1 (header ?hp + j div 8) = m (header ?hp + j div 8)"
    if "j < capacity ?hp" for j
    unfolding m1 using header_byte_below_data [OF that] by (intro serialize_frame) simp
  have occ: "HeapPage_empty ?hp ?m' j \<longleftrightarrow> HeapPage_empty ?hp m j \<and> j \<noteq> s"
    if "j < capacity ?hp" for j
  proof -
    have "HeapPage_empty ?hp ?m' j \<longleftrightarrow> HeapPage_empty ?hp m1 j \<and> j \<noteq> s"
      by (simp only: empty_after_set)
    also have "HeapPage_empty ?hp m1 j \<longleftrightarrow> HeapPage_empty ?hp m j"
      using hdr [OF that] by (simp add: HeapPage_empty_iff)
    finally show ?thesis .
  qed
  have "?h < data ?hp" using header_byte_below_data [OF s] .
  then have "load ?m' ?p ?T = load m1 ?p ?T"
    by (intro load_cong) simp
  then show ?thesis using occ unfolding ins m1 [symmetric] by simp
qed

lemma empty_zero_memory: "HeapPage_empty hp zero_memory j"
  by (simp add: HeapPage_empty_def zero_memory_def)

lemma fill_from:
  assumes "\<forall>u\<in>set ts. compatible td u"
    and "k + length ts \<le> capacity (HeapPage cs P td)"
    and "\<forall>j<capacity (HeapPage cs P td). HeapPage_empty (HeapPage cs P td) m j \<longleftrightarrow> k \<le> j"
  shows "fst (insert_all cs behind (HeapPage cs P td) m ts) = replicate (length ts) (Inr True)
       \<and> (\<forall>j<capacity (HeapPage cs P td).
             HeapPage_empty (HeapPage cs P td)
               (snd (insert_all cs behind (HeapPage cs P td) m ts)) j
             \<longleftrightarrow> k + length ts \<le> j)"
  using assms
proof (induction ts arbitrary: k m)
  case Nil
  then show ?case by simp
next
  case (Cons t ts)
  let ?hp = "HeapPage cs P td"
  let ?m' = "snd (HeapPage_insertTuple cs behind ?hp m t)"
  have k: "k < capacity ?hp" using Cons.prems(2) by simp
  have c: "compatible td t" using Cons.prems(1) by simp
  have e: "HeapPage_empty ?hp m k" using Cons.prems(3) k by simp
  have b: "\<forall>j. j < k \<longrightarrow> \<not> HeapPage_empty ?hp m j" using Cons.prems(3) k by simp
  note ins = insertTuple_first_empty [OF c k e b, of behind]
  have inv: "\<forall>j<capacity ?hp. HeapPage_empty ?hp ?m' j \<longleftrightarrow> Suc k \<le> j"
    using ins Cons.prems(3) by auto
  have "fst (insert_all cs behind ?hp ?m' ts) = replicate (length ts) (Inr True)
       \<and> (\<forall>j<capacity ?hp.
             HeapPage_empty ?hp (snd (insert_all cs behind ?hp ?m' ts)) j
             \<longleftrightarrow> Suc k + length ts \<le> j)"
    using Cons.prems by (intro Cons.IH inv) simp_all
  moreover have "fst (HeapPage_insertTuple cs behind ?hp m t) = Inr True"
    using ins by simp
  ultimately show ?case
    by (simp add: split_beta)
qed

lemma fill_fresh_page:
  assumes "length ts = capacity (HeapPage cs P td)" and "\<forall>u\<in>set ts. compatible td u"
  shows "fst (insert_all cs behind (HeapPage cs P td) zero_memory ts)
           = replicate (capacity (HeapPage cs P td)) (Inr True)
       \<and> (\<forall>j<capacity (HeapPage cs P td).
             \<not> HeapPage_empty (HeapPage cs P td)
                 (snd (insert_all cs behind (HeapPage cs P td) zero_memory ts)) j)"
  using fill_from [of ts td 0 cs P zero_memory behind] assms
  by (simp add: empty_zero_memory)

text \<open>
  C6. Take a page view built for the schema and a tuple compatible with the schema.
  When \<open>s\<close> is the smallest empty slot of the page, \<open>insertTuple\<close> returns true,
  slot \<open>s\<close> is occupied afterwards, every other slot keeps its state, and the bytes
  of slot \<open>s\<close> in the data region are the bytes \<open>serialize\<close> writes for the tuple.
  When no slot below the capacity is empty, \<open>insertTuple\<close> returns false without an
  exception and leaves the page as it is. So inserting as many compatible tuples as
  the capacity into a page of zero bytes returns true every time, and the insert after
  them returns false.
\<close>

theorem page_insert_first_empty_slot:
  assumes "compatible td t"
  shows "(\<forall>s. s < capacity (HeapPage cs P td) \<and> HeapPage_empty (HeapPage cs P td) m s
              \<and> (\<forall>j. j < s \<longrightarrow> \<not> HeapPage_empty (HeapPage cs P td) m j)
            \<longrightarrow> fst (HeapPage_insertTuple cs behind (HeapPage cs P td) m t) = Inr True
              \<and> \<not> HeapPage_empty (HeapPage cs P td)
                    (snd (HeapPage_insertTuple cs behind (HeapPage cs P td) m t)) s
              \<and> (\<forall>j<capacity (HeapPage cs P td). j \<noteq> s \<longrightarrow>
                    HeapPage_empty (HeapPage cs P td)
                      (snd (HeapPage_insertTuple cs behind (HeapPage cs P td) m t)) j
                    = HeapPage_empty (HeapPage cs P td) m j)
              \<and> load (snd (HeapPage_insertTuple cs behind (HeapPage cs P td) m t))
                   (data (HeapPage cs P td) + s * TupleDesc_length cs td)
                   (TupleDesc_length cs td)
                 = load (snd (serialize cs behind td m
                                (data (HeapPage cs P td) + s * TupleDesc_length cs td) t))
                     (data (HeapPage cs P td) + s * TupleDesc_length cs td)
                     (TupleDesc_length cs td))
       \<and> ((\<forall>j<capacity (HeapPage cs P td). \<not> HeapPage_empty (HeapPage cs P td) m j)
            \<longrightarrow> HeapPage_insertTuple cs behind (HeapPage cs P td) m t = (Inr False, m))
       \<and> (\<forall>ts. length ts = capacity (HeapPage cs P td) \<and> (\<forall>u\<in>set ts. compatible td u)
            \<longrightarrow> fst (insert_all cs behind (HeapPage cs P td) zero_memory ts)
                  = replicate (capacity (HeapPage cs P td)) (Inr True)
              \<and> HeapPage_insertTuple cs behind (HeapPage cs P td)
                    (snd (insert_all cs behind (HeapPage cs P td) zero_memory ts)) t
                  = (Inr False, snd (insert_all cs behind (HeapPage cs P td) zero_memory ts)))"
proof (intro conjI allI impI)
  fix s
  assume a: "s < capacity (HeapPage cs P td) \<and> HeapPage_empty (HeapPage cs P td) m s
              \<and> (\<forall>j. j < s \<longrightarrow> \<not> HeapPage_empty (HeapPage cs P td) m j)"
  then have s: "s < capacity (HeapPage cs P td)"
    and e: "HeapPage_empty (HeapPage cs P td) m s"
    and b: "\<forall>j. j < s \<longrightarrow> \<not> HeapPage_empty (HeapPage cs P td) m j"
    by simp_all
  note ins = insertTuple_first_empty [OF assms s e b, of behind]
  show "fst (HeapPage_insertTuple cs behind (HeapPage cs P td) m t) = Inr True"
    using ins by simp
  show "\<not> HeapPage_empty (HeapPage cs P td)
             (snd (HeapPage_insertTuple cs behind (HeapPage cs P td) m t)) s"
    using ins s by simp
  show "load (snd (HeapPage_insertTuple cs behind (HeapPage cs P td) m t))
                   (data (HeapPage cs P td) + s * TupleDesc_length cs td)
                   (TupleDesc_length cs td)
                 = load (snd (serialize cs behind td m
                                (data (HeapPage cs P td) + s * TupleDesc_length cs td) t))
                     (data (HeapPage cs P td) + s * TupleDesc_length cs td)
                     (TupleDesc_length cs td)"
    using ins by simp
  fix j
  assume "j < capacity (HeapPage cs P td)" "j \<noteq> s"
  then show "HeapPage_empty (HeapPage cs P td)
                      (snd (HeapPage_insertTuple cs behind (HeapPage cs P td) m t)) j
                    = HeapPage_empty (HeapPage cs P td) m j"
    using ins by simp
next
  assume "\<forall>j<capacity (HeapPage cs P td). \<not> HeapPage_empty (HeapPage cs P td) m j"
  then show "HeapPage_insertTuple cs behind (HeapPage cs P td) m t = (Inr False, m)"
    by (rule insertTuple_full)
next
  fix ts
  assume a: "length ts = capacity (HeapPage cs P td) \<and> (\<forall>u\<in>set ts. compatible td u)"
  then have fill: "fst (insert_all cs behind (HeapPage cs P td) zero_memory ts)
           = replicate (capacity (HeapPage cs P td)) (Inr True)
       \<and> (\<forall>j<capacity (HeapPage cs P td).
             \<not> HeapPage_empty (HeapPage cs P td)
                 (snd (insert_all cs behind (HeapPage cs P td) zero_memory ts)) j)"
    by (intro fill_fresh_page) simp_all
  then show "fst (insert_all cs behind (HeapPage cs P td) zero_memory ts)
                  = replicate (capacity (HeapPage cs P td)) (Inr True)"
    by simp
  from fill show "HeapPage_insertTuple cs behind (HeapPage cs P td)
                    (snd (insert_all cs behind (HeapPage cs P td) zero_memory ts)) t
                  = (Inr False, snd (insert_all cs behind (HeapPage cs P td) zero_memory ts))"
    by (intro insertTuple_full) simp
qed

lemma small_page_capacity: "capacity (HeapPage 4 8 id_schema) = 1"
  by (simp add: HeapPage_layout TupleDesc_length_def id_schema_def INT_SIZE_def)

lemma id_schema_compatible: "compatible id_schema (Tuple [IntField w])"
  by (simp add: compatible_iff id_schema_def)

theorem page_insert_first_empty_slot_witness:
  "fst (HeapPage_insertTuple 4 nothing_behind (HeapPage 4 8 id_schema) zero_memory
          (Tuple [IntField 7])) = Inr True
   \<and> \<not> HeapPage_empty (HeapPage 4 8 id_schema)
         (snd (HeapPage_insertTuple 4 nothing_behind (HeapPage 4 8 id_schema) zero_memory
                 (Tuple [IntField 7]))) 0
   \<and> fst (insert_all 4 nothing_behind (HeapPage 4 8 id_schema) zero_memory
            [Tuple [IntField 7]]) = [Inr True]
   \<and> fst (HeapPage_insertTuple 4 nothing_behind (HeapPage 4 8 id_schema)
            (snd (insert_all 4 nothing_behind (HeapPage 4 8 id_schema) zero_memory
                    [Tuple [IntField 7]]))
            (Tuple [IntField 7])) = Inr False"
proof -
  note inst = page_insert_first_empty_slot [OF id_schema_compatible [of 7],
      of 4 8 zero_memory nothing_behind]
  have first: "0 < capacity (HeapPage 4 8 id_schema)
      \<and> HeapPage_empty (HeapPage 4 8 id_schema) zero_memory 0
      \<and> (\<forall>j. j < 0 \<longrightarrow> \<not> HeapPage_empty (HeapPage 4 8 id_schema) zero_memory j)"
    by (simp add: small_page_capacity empty_zero_memory)
  have fill: "length [Tuple [IntField 7]] = capacity (HeapPage 4 8 id_schema)
      \<and> (\<forall>u\<in>set [Tuple [IntField 7]]. compatible id_schema u)"
    by (simp add: small_page_capacity id_schema_compatible)
  from inst [THEN conjunct1, rule_format, OF first]
       inst [THEN conjunct2, THEN conjunct2, rule_format, OF fill]
  show ?thesis by (simp add: small_page_capacity)
qed

theorem insert_delete_occupancy_witness:
  "fst (HeapPage_insertTuple 4 nothing_behind (HeapPage 4 8 id_schema) zero_memory
          (Tuple [IntField 7])) = Inr True
   \<and> \<not> HeapPage_empty (HeapPage 4 8 id_schema)
         (snd (HeapPage_insertTuple 4 nothing_behind (HeapPage 4 8 id_schema) zero_memory
                 (Tuple [IntField 7]))) 0
   \<and> fst (HeapPage_deleteTuple (HeapPage 4 8 id_schema)
            (snd (HeapPage_insertTuple 4 nothing_behind (HeapPage 4 8 id_schema) zero_memory
                    (Tuple [IntField 7]))) 0) = Inr ()
   \<and> HeapPage_empty (HeapPage 4 8 id_schema)
        (snd (HeapPage_deleteTuple (HeapPage 4 8 id_schema)
               (snd (HeapPage_insertTuple 4 nothing_behind (HeapPage 4 8 id_schema)
                       zero_memory (Tuple [IntField 7]))) 0)) 0
   \<and> fst (HeapPage_deleteTuple (HeapPage 4 8 id_schema)
            (snd (HeapPage_deleteTuple (HeapPage 4 8 id_schema)
                   (snd (HeapPage_insertTuple 4 nothing_behind (HeapPage 4 8 id_schema)
                           zero_memory (Tuple [IntField 7]))) 0)) 0) = Inl logic_error
   \<and> HeapPage_deleteTuple (HeapPage 4 8 id_schema) zero_memory 0
       = (Inl logic_error, zero_memory)"
proof -
  let ?hp = "HeapPage 4 8 id_schema"
  let ?ins = "HeapPage_insertTuple 4 nothing_behind ?hp zero_memory (Tuple [IntField 7])"
  let ?del = "HeapPage_deleteTuple ?hp (snd ?ins) 0"
  have loop: "insert_loop ?hp zero_memory 0 = 0"
    by (rule insert_loop_finds) (simp_all add: empty_zero_memory)
  have ok: "fst ?ins = Inr True"
    using insertTuple_first_empty [OF id_schema_compatible [of 7], of 0 4 8 zero_memory
        nothing_behind]
    by (simp add: small_page_capacity empty_zero_memory)
  then have ins: "?ins = (Inr True, snd ?ins)" by (metis prod.collapse)
  from insert_delete_occupancy [of 4 nothing_behind ?hp zero_memory "Tuple [IntField 7]"
      "snd ?ins" 0] ins
  have occupied: "\<not> HeapPage_empty ?hp (snd ?ins) 0" by (simp add: loop)
  then have delok: "fst ?del = Inr ()"
    by (simp add: HeapPage_deleteTuple_def)
  then have del: "?del = (Inr (), snd ?del)" by (metis prod.collapse)
  from insert_delete_occupancy [of 4 nothing_behind ?hp "snd ?ins" "Tuple [IntField 7]"
      "snd ?del" 0] del
  have after: "HeapPage_empty ?hp (snd ?del) 0"
    and twice: "HeapPage_deleteTuple ?hp (snd ?del) 0 = (Inl logic_error, snd ?del)"
    by simp_all
  from insert_delete_occupancy [of 4 nothing_behind ?hp zero_memory "Tuple [IntField 7]"
      zero_memory 0]
  have "HeapPage_deleteTuple ?hp zero_memory 0 = (Inl logic_error, zero_memory)"
    by (simp add: empty_zero_memory)
  then show ?thesis using ok occupied delok after twice by simp
qed

section \<open>Traversal of a heap file\<close>

subsection \<open>The scans inside a page\<close>

lemma next_loop_scan:
  assumes "s \<le> capacity hp"
  shows "next_loop hp m s \<le> capacity hp
       \<and> occupied_from hp m s
           = (if next_loop hp m s < capacity hp
              then next_loop hp m s # occupied_from hp m (Suc (next_loop hp m s))
              else [])"
  using assms
proof (induction "capacity hp - s" arbitrary: s)
  case 0
  then have "s = capacity hp" by simp
  then show ?case
    by (subst (1 2 3 4) next_loop.simps) (simp add: occupied_from_def)
next
  case (Suc k)
  then have lt: "s < capacity hp" by simp
  then have u: "[s..<capacity hp] = s # [Suc s..<capacity hp]" by (simp add: upt_conv_Cons)
  show ?case
  proof (cases "HeapPage_empty hp m s")
    case True
    then have step: "next_loop hp m s = next_loop hp m (Suc s)"
      using lt by (subst next_loop.simps) simp
    have "occupied_from hp m s = occupied_from hp m (Suc s)"
      using True by (simp add: occupied_from_def u)
    moreover have "k = capacity hp - Suc s" using Suc.hyps(2) by simp
    ultimately show ?thesis
      using Suc.hyps(1) [of "Suc s"] lt by (simp add: step)
  next
    case False
    then have stop: "next_loop hp m s = s"
      by (subst next_loop.simps) simp
    have "occupied_from hp m s = s # occupied_from hp m (Suc s)"
      using False by (simp add: occupied_from_def u)
    then show ?thesis using lt by (simp add: stop)
  qed
qed

lemma begin_loop_next_loop: "begin_loop hp m s = next_loop hp m s"
proof (induction hp m s rule: begin_loop.induct)
  case (1 hp m s)
  show ?case
  proof (cases "s < capacity hp \<and> HeapPage_empty hp m s")
    case True
    then have "begin_loop hp m s = begin_loop hp m (Suc s)"
      by (subst begin_loop.simps) simp
    moreover have "next_loop hp m s = next_loop hp m (Suc s)"
      using True by (subst next_loop.simps) simp
    ultimately show ?thesis using "1.IH" True by simp
  next
    case False
    then have "begin_loop hp m s = s"
      by (subst begin_loop.simps) auto
    moreover have "next_loop hp m s = s"
      using False by (subst next_loop.simps) auto
    ultimately show ?thesis by simp
  qed
qed

lemma occupied_from_Cons:
  assumes "occupied_from hp m s = t # ts" and "s \<le> capacity hp"
  shows "t < capacity hp \<and> ts = occupied_from hp m (Suc t)"
  using next_loop_scan [OF assms(2), of m] assms(1)
  by (auto split: if_splits)

lemma occupied_from_skip:
  "HeapPage_empty hp m s \<Longrightarrow> occupied_from hp m s = occupied_from hp m (Suc s)"
  by (cases "s < capacity hp") (simp_all add: occupied_from_def upt_conv_Cons)

lemma occupied_from_hit:
  "\<not> HeapPage_empty hp m s \<Longrightarrow> s < capacity hp \<Longrightarrow>
   occupied_from hp m s = s # occupied_from hp m (Suc s)"
  by (simp add: occupied_from_def upt_conv_Cons)


subsection \<open>Cursors of a file\<close>

lemma cursors_from_next_page:
  assumes "Suc p < n"
  shows "concat (map (\<lambda>q. map (Iterator q) (occupied_from (HeapPage cs P td) (rd q) 0))
                    [Suc p..<n])
         = cursors_from cs P td rd n (Suc p) 0"
  using assms by (simp add: cursors_from_def upt_conv_Cons)

lemma cursors_from_page_done:
  assumes "occupied_from (HeapPage cs P td) (rd p) s = []"
  shows "cursors_from cs P td rd n p s
         = (if Suc p < n then cursors_from cs P td rd n (Suc p) 0 else [])"
  using assms by (simp add: cursors_from_def upt_conv_Cons)

lemma cursors_from_hit:
  assumes "occupied_from (HeapPage cs P td) (rd p) s = t # ts"
    and "s \<le> capacity (HeapPage cs P td)"
  shows "cursors_from cs P td rd n p s = Iterator p t # cursors_from cs P td rd n p (Suc t)"
  using occupied_from_Cons [OF assms] assms(1) by (simp add: cursors_from_def)

lemma cursors_from_Cons:
  assumes "cursors_from cs P td rd n p s = c # R"
    and "p < n" and "s \<le> capacity (HeapPage cs P td)"
  shows "\<exists>q t. c = Iterator q t \<and> q < n \<and> t < capacity (HeapPage cs P td)
            \<and> R = cursors_from cs P td rd n q (Suc t)"
  using assms
proof (induction "n - p" arbitrary: p s)
  case 0
  then show ?case by simp
next
  case (Suc k)
  show ?case
  proof (cases "occupied_from (HeapPage cs P td) (rd p) s")
    case Nil
    from cursors_from_page_done [of cs P td rd p s n] Nil Suc.prems(1)
    have next_page: "Suc p < n" "cursors_from cs P td rd n (Suc p) 0 = c # R"
      by (simp_all split: if_splits)
    moreover have "k = n - Suc p" using Suc.hyps(2) by simp
    ultimately show ?thesis
      using Suc.hyps(1) [of "Suc p" 0] by simp
  next
    case (Cons t ts)
    from cursors_from_hit [of cs P td rd p s t ts n] Cons Suc.prems(3) Suc.prems(1)
    have "c = Iterator p t" "R = cursors_from cs P td rd n p (Suc t)" by simp_all
    moreover have "t < capacity (HeapPage cs P td)"
      using occupied_from_Cons [OF Cons Suc.prems(3)] by simp
    ultimately show ?thesis using Suc.prems(2) by blast
  qed
qed

subsection \<open>\<open>next\<close> and \<open>begin\<close> find the first occupied cursor that follows\<close>

lemma HeapFile_next_hd:
  assumes "p < n" and "s < capacity (HeapPage cs P td)"
  shows "HeapFile_next cs P td rd n (Iterator p s)
         = hd (cursors_from cs P td rd n p (Suc s) @ [HeapFile_end cs P td n])"
  using assms
proof (induction "n - p" arbitrary: p s)
  case 0
  then show ?case by simp
next
  case (Suc k)
  let ?hp = "HeapPage cs P td"
  let ?r = "HeapPage_next ?hp (rd p) s"
  have last: "size_minus_1 n = n - 1" using Suc.prems(1) by (simp add: size_minus_1_def)
  have scan: "?r \<le> capacity ?hp"
    "occupied_from ?hp (rd p) (Suc s)
       = (if ?r < capacity ?hp then ?r # occupied_from ?hp (rd p) (Suc ?r) else [])"
    using next_loop_scan [of "Suc s" ?hp "rd p"] Suc.prems(2)
    by (simp_all add: HeapPage_next_def)
  show ?case
  proof (cases "?r < capacity ?hp")
    case True
    then have "HeapFile_next cs P td rd n (Iterator p s) = Iterator p ?r"
      by (subst HeapFile_next.simps) (simp add: HeapPage_end_def)
    moreover have "hd (cursors_from cs P td rd n p (Suc s) @ [HeapFile_end cs P td n])
                     = Iterator p ?r"
      using True scan(2) by (simp add: cursors_from_def)
    ultimately show ?thesis by simp
  next
    case False
    then have r: "?r = capacity ?hp" using scan(1) by simp
    then have nomore: "occupied_from ?hp (rd p) (Suc s) = []" using scan(2) by simp
    show ?thesis
    proof (cases "Suc p < n")
      case False
      then have "p = n - 1" using Suc.prems(1) by simp
      then have "HeapFile_next cs P td rd n (Iterator p s) = Iterator (n - 1) (capacity ?hp)"
        using r by (subst HeapFile_next.simps) (simp add: HeapPage_end_def last)
      moreover have "cursors_from cs P td rd n p (Suc s) = []"
        using False nomore cursors_from_page_done [of cs P td rd p "Suc s" n] by simp
      ultimately show ?thesis
        by (simp add: HeapFile_end_def HeapPage_end_def last)
    next
      case True
      then have more: "p < size_minus_1 n" by (simp add: last)
      have rest: "cursors_from cs P td rd n p (Suc s) = cursors_from cs P td rd n (Suc p) 0"
        using True nomore cursors_from_page_done [of cs P td rd p "Suc s" n] by simp
      have pos: "0 < capacity ?hp" using Suc.prems(2) by simp
      show ?thesis
      proof (cases "HeapPage_empty ?hp (rd (Suc p)) 0")
        case False
        then have "HeapFile_next cs P td rd n (Iterator p s) = Iterator (Suc p) 0"
          using r more by (subst HeapFile_next.simps) (simp add: HeapPage_end_def)
        moreover have "cursors_from cs P td rd n (Suc p) 0
                         = Iterator (Suc p) 0 # cursors_from cs P td rd n (Suc p) (Suc 0)"
          using occupied_from_hit [OF False pos] by (simp add: cursors_from_def)
        ultimately show ?thesis by (simp add: rest)
      next
        case empty0: True
        then have "HeapFile_next cs P td rd n (Iterator p s)
                     = HeapFile_next cs P td rd n (Iterator (Suc p) 0)"
          using r more by (subst HeapFile_next.simps) (simp add: HeapPage_end_def)
        also have "\<dots> = hd (cursors_from cs P td rd n (Suc p) (Suc 0)
                              @ [HeapFile_end cs P td n])"
          using Suc.hyps(2) True pos by (intro Suc.hyps(1)) simp_all
        also have "cursors_from cs P td rd n (Suc p) (Suc 0)
                     = cursors_from cs P td rd n (Suc p) 0"
          using occupied_from_skip [OF empty0] by (simp add: cursors_from_def)
        finally show ?thesis by (simp add: rest)
      qed
    qed
  qed
qed

lemma HeapFile_begin_loop_hd:
  assumes "i \<le> n"
  shows "HeapFile_begin_loop cs P td rd n i
         = hd (concat (map (\<lambda>q. map (Iterator q) (occupied_from (HeapPage cs P td) (rd q) 0))
                         [i..<n])
                 @ [HeapFile_end cs P td n])"
  using assms
proof (induction "n - i" arbitrary: i)
  case 0
  then have "i = n" by simp
  then show ?case by (subst HeapFile_begin_loop.simps) simp
next
  case (Suc k)
  let ?hp = "HeapPage cs P td"
  let ?r = "HeapPage_begin ?hp (rd i)"
  have i: "i < n" using Suc.hyps(2) by simp
  then have u: "[i..<n] = i # [Suc i..<n]" by (simp add: upt_conv_Cons)
  have scan: "?r \<le> capacity ?hp"
    "occupied_from ?hp (rd i) 0
       = (if ?r < capacity ?hp then ?r # occupied_from ?hp (rd i) (Suc ?r) else [])"
    using next_loop_scan [of 0 ?hp "rd i"]
    by (simp_all add: HeapPage_begin_def begin_loop_next_loop)
  show ?case
  proof (cases "?r < capacity ?hp")
    case True
    then have "HeapFile_begin_loop cs P td rd n i = Iterator i ?r"
      using i by (subst HeapFile_begin_loop.simps) (simp add: HeapPage_end_def)
    then show ?thesis using True scan(2) by (simp add: u)
  next
    case False
    then have "?r = capacity ?hp" using scan(1) by simp
    then have "HeapFile_begin_loop cs P td rd n i = HeapFile_begin_loop cs P td rd n (Suc i)"
      using i by (subst HeapFile_begin_loop.simps) (simp add: HeapPage_end_def)
    moreover have "occupied_from ?hp (rd i) 0 = []" using False scan(2) by simp
    moreover have "k = n - Suc i" using Suc.hyps(2) by simp
    ultimately show ?thesis
      using Suc.hyps(1) [of "Suc i"] i by (simp add: u)
  qed
qed

lemma HeapFile_begin_hd:
  assumes "0 < n"
  shows "HeapFile_begin cs P td rd n
         = hd (cursors_from cs P td rd n 0 0 @ [HeapFile_end cs P td n])"
  using assms HeapFile_begin_loop_hd [of 0 n cs P td rd]
  by (simp add: HeapFile_begin_def cursors_from_def upt_conv_Cons)


subsection \<open>The traversal\<close>

lemma traverse_from_end:
  "traverse_from cs P td rd n (HeapFile_end cs P td n) = Some []"
  by (subst traverse_from.simps) simp

lemma traverse_from_cursors:
  assumes "p < n" and "s \<le> capacity (HeapPage cs P td)"
  shows "traverse_from cs P td rd n
           (hd (cursors_from cs P td rd n p s @ [HeapFile_end cs P td n]))
         = Some (cursors_from cs P td rd n p s)"
  using assms
proof (induction "length (cursors_from cs P td rd n p s)" arbitrary: p s)
  case 0
  then show ?case by (simp add: traverse_from_end)
next
  case (Suc k)
  then obtain c R where cR: "cursors_from cs P td rd n p s = c # R"
    by (metis length_Suc_conv)
  from cursors_from_Cons [OF cR Suc.prems] obtain q t where
    c: "c = Iterator q t" and q: "q < n" and t: "t < capacity (HeapPage cs P td)"
    and R: "R = cursors_from cs P td rd n q (Suc t)"
    by blast
  have "c \<noteq> HeapFile_end cs P td n"
    using c t by (simp add: HeapFile_end_def HeapPage_end_def)
  then have "traverse_from cs P td rd n c
      = Option.bind (traverse_from cs P td rd n (HeapFile_next cs P td rd n c))
          (\<lambda>rest. Some (c # rest))"
    by (subst traverse_from.simps) simp
  also have "HeapFile_next cs P td rd n c = hd (R @ [HeapFile_end cs P td n])"
    unfolding c R by (rule HeapFile_next_hd [OF q t])
  also have "traverse_from cs P td rd n (hd (R @ [HeapFile_end cs P td n])) = Some R"
    unfolding R using Suc.hyps(2) cR R q t by (intro Suc.hyps(1)) simp_all
  finally show ?case by (simp add: cR)
qed

lemma set_cursors_from_start:
  assumes "0 < n"
  shows "set (cursors_from cs P td rd n 0 0)
   = {Iterator p s | p s. p < n \<and> s < capacity (HeapPage cs P td)
                          \<and> \<not> HeapPage_empty (HeapPage cs P td) (rd p) s}"
proof -
  from assms have "cursors_from cs P td rd n 0 0
      = concat (map (\<lambda>q. map (Iterator q) (occupied_from (HeapPage cs P td) (rd q) 0)) [0..<n])"
    by (simp add: cursors_from_def upt_conv_Cons)
  then show ?thesis by (auto simp: occupied_from_def)
qed

lemma sorted_pages:
  "sorted_wrt (\<lambda>a b. page a < page b \<or> page a = page b \<and> slot a < slot b)
     (concat (map (\<lambda>q. map (Iterator q) (occupied_from hp (rd q) 0)) [i..<n]))"
proof (induction "n - i" arbitrary: i)
  case 0
  then show ?case by simp
next
  case (Suc k)
  then have i: "i < n" and k: "k = n - Suc i" by simp_all
  have "sorted_wrt (<) (occupied_from hp (rd i) 0)"
    unfolding occupied_from_def by (intro sorted_wrt_filter) (simp add: sorted_wrt_upt)
  then have page_i: "sorted_wrt (\<lambda>a b. page a < page b \<or> page a = page b \<and> slot a < slot b)
                (map (Iterator i) (occupied_from hp (rd i) 0))"
    by (simp add: sorted_wrt_map)
  show ?case
    using i page_i Suc.hyps(1) [OF k] by (auto simp: upt_conv_Cons sorted_wrt_append)
qed

lemma sorted_cursors_from_start:
  assumes "0 < n"
  shows "sorted_wrt (\<lambda>a b. page a < page b \<or> page a = page b \<and> slot a < slot b)
     (cursors_from cs P td rd n 0 0)"
proof -
  from assms have "cursors_from cs P td rd n 0 0
      = concat (map (\<lambda>q. map (Iterator q) (occupied_from (HeapPage cs P td) (rd q) 0)) [0..<n])"
    by (simp add: cursors_from_def upt_conv_Cons)
  then show ?thesis by (simp add: sorted_pages)
qed

text \<open>
  C1. For every heap file with at least one page (the constructor never leaves fewer),
  whatever bytes its pages hold, the traversal from \<open>begin\<close> by \<open>next\<close> reaches
  \<open>end\<close>, and the cursors it visits before are exactly the cursors \<open>(p, s)\<close> with
  \<open>p\<close> a page of the file, \<open>s\<close> below the capacity and slot \<open>s\<close> of page \<open>p\<close>
  occupied, in strictly increasing order of page and then slot, each once.
\<close>

theorem traversal_visits_occupied_in_order:
  assumes "1 \<le> n"
  shows "\<exists>xs. traverse cs P td rd n = Some xs
            \<and> set xs = {Iterator p s | p s.
                          p < n \<and> s < capacity (HeapPage cs P td)
                            \<and> \<not> HeapPage_empty (HeapPage cs P td) (rd p) s}
            \<and> sorted_wrt (\<lambda>a b. page a < page b \<or> page a = page b \<and> slot a < slot b) xs
            \<and> distinct xs"
proof -
  let ?xs = "cursors_from cs P td rd n 0 0"
  from assms have n: "0 < n" by simp
  have "traverse cs P td rd n = Some ?xs"
    unfolding traverse_def HeapFile_begin_hd [OF n]
    by (rule traverse_from_cursors [OF n]) simp
  moreover have sorted: "sorted_wrt (\<lambda>a b. page a < page b \<or> page a = page b \<and> slot a < slot b) ?xs"
    by (rule sorted_cursors_from_start [OF n])
  moreover have "distinct ?xs"
  proof -
    have "?xs ! i \<noteq> ?xs ! j" if "i < j" "j < length ?xs" for i j
      using sorted_wrt_nth_less [OF sorted that] by auto
    then show ?thesis
      unfolding distinct_conv_nth by (metis nat_neq_iff)
  qed
  ultimately show ?thesis
    using set_cursors_from_start [OF n, of cs P td rd] by blast
qed


lemma tiny_page_capacity: "capacity (HeapPage 4 9 id_schema) = 2"
  by (simp add: HeapPage_layout TupleDesc_length_def id_schema_def INT_SIZE_def)

lemma example_pages_empty:
  "HeapPage_empty (HeapPage 4 9 id_schema) (example_pages 0) 0"
  "\<not> HeapPage_empty (HeapPage 4 9 id_schema) (example_pages 0) 1"
  "HeapPage_empty (HeapPage 4 9 id_schema) (example_pages 1) 0"
  "HeapPage_empty (HeapPage 4 9 id_schema) (example_pages 1) 1"
  "HeapPage_empty (HeapPage 4 9 id_schema) (example_pages 2) 0"
  "\<not> HeapPage_empty (HeapPage 4 9 id_schema) (example_pages 2) 1"
  by (simp_all add: HeapPage_empty_def example_pages_def zero_memory_def)

lemma example_begin: "HeapFile_begin 4 9 id_schema example_pages 3 = Iterator 0 (Suc 0)"
  by code_simp

lemma example_next:
  "HeapFile_next 4 9 id_schema example_pages 3 (Iterator 0 (Suc 0)) = Iterator 2 (Suc 0)"
  "HeapFile_next 4 9 id_schema example_pages 3 (Iterator 2 (Suc 0)) = Iterator 2 2"
  by code_simp+

lemma example_end: "HeapFile_end 4 9 id_schema 3 = Iterator 2 2"
  by code_simp

lemma example_traverse:
  "traverse 4 9 id_schema example_pages 3 = Some [Iterator 0 1, Iterator 2 1]"
  unfolding traverse_def example_begin
  by (subst traverse_from.simps, subst traverse_from.simps, subst traverse_from.simps)
     (simp add: example_next example_end)

theorem traversal_visits_occupied_in_order_witness:
  "traverse 4 9 id_schema example_pages 3 = Some [Iterator 0 1, Iterator 2 1]
   \<and> (\<exists>xs. traverse 4 9 id_schema example_pages 3 = Some xs
        \<and> set xs = {Iterator 0 1, Iterator 2 1}
        \<and> sorted_wrt (\<lambda>a b. page a < page b \<or> page a = page b \<and> slot a < slot b) xs
        \<and> distinct xs)"
proof -
  have "{Iterator p s | p s. p < (3::nat) \<and> s < capacity (HeapPage 4 9 id_schema)
           \<and> \<not> HeapPage_empty (HeapPage 4 9 id_schema) (example_pages p) s}
        = {Iterator 0 1, Iterator 2 1}" (is "?A = ?B")
  proof
    show "?A \<subseteq> ?B"
    proof
      fix c assume "c \<in> ?A"
      then obtain p s where c: "c = Iterator p s" and p: "p < 3" and s: "s < 2"
        and occ: "\<not> HeapPage_empty (HeapPage 4 9 id_schema) (example_pages p) s"
        by (auto simp: tiny_page_capacity)
      from p have "p = 0 \<or> p = 1 \<or> p = 2" by linarith
      moreover from s have "s = 0 \<or> s = 1" by linarith
      ultimately show "c \<in> ?B"
        using occ c example_pages_empty by auto
    qed
    show "?B \<subseteq> ?A"
      using example_pages_empty by (auto simp: tiny_page_capacity)
  qed
  with traversal_visits_occupied_in_order [of 3 4 9 id_schema example_pages]
  have "\<exists>xs. traverse 4 9 id_schema example_pages 3 = Some xs
        \<and> set xs = {Iterator 0 1, Iterator 2 1}
        \<and> sorted_wrt (\<lambda>a b. page a < page b \<or> page a = page b \<and> slot a < slot b) xs
        \<and> distinct xs"
    by simp
  then show ?thesis using example_traverse by blast
qed

section \<open>The page count of a heap file\<close>

lemma insertTuple_fresh_page:
  assumes "compatible td t" and "1 \<le> capacity (HeapPage cs P td)"
  shows "fst (HeapPage_insertTuple cs behind (HeapPage cs P td) zero_memory t) = Inr True"
  using insertTuple_first_empty [OF assms(1), of 0 cs P zero_memory behind] assms(2)
  by (simp add: empty_zero_memory)

lemma HeapFile_insert_stays:
  assumes "compatible td t" and "1 \<le> capacity (HeapPage cs P td)"
  shows "fst (HeapFile_insertTuple cs P td behind f t) = Inr ()
       \<and> numPages (snd (HeapFile_insertTuple cs P td behind f t)) = numPages f
       \<and> writes (snd (HeapFile_insertTuple cs P td behind f t))
           = writes f @ [size_minus_1 (numPages f)]"
proof -
  obtain pg where
    "HeapPage_insertTuple cs behind (HeapPage cs P td) zero_memory t = (Inr True, pg)"
    using insertTuple_fresh_page [OF assms, of behind] by (metis prod.collapse)
  then show ?thesis
    by (simp add: HeapFile_insertTuple_def readPage_def writePage_def)
qed

lemma insert_into_file_stays:
  assumes "\<forall>u\<in>set ts. compatible td u" and "1 \<le> capacity (HeapPage cs P td)"
  shows "numPages (insert_into_file cs P td behind f ts) = numPages f"
  using assms(1)
proof (induction ts arbitrary: f)
  case Nil
  then show ?case by (simp add: insert_into_file_def)
next
  case (Cons t ts)
  have "numPages (snd (HeapFile_insertTuple cs P td behind f t)) = numPages f"
    using HeapFile_insert_stays [OF _ assms(2), of t behind f] Cons.prems by simp
  moreover have "insert_into_file cs P td behind f (t # ts)
      = insert_into_file cs P td behind (snd (HeapFile_insertTuple cs P td behind f t)) ts"
    by (simp add: insert_into_file_def)
  ultimately show ?case using Cons by simp
qed

lemma wide_page_capacity: "capacity (HeapPage 4 8 wide_schema) = 0"
  by (simp add: HeapPage_layout TupleDesc_length_def wide_schema_def)

lemma wide_schema_compatible:
  "compatible wide_schema (Tuple [StringField [97], StringField [98], StringField [99]])"
  by (simp add: compatible_iff wide_schema_def)

text \<open>
  C7. The constructor sets the page count of an empty store to 1, but the count does
  not grow as claimed. \<open>readPage\<close> leaves the zeroed buffer as it is and \<open>writePage\<close>
  persists nothing, so with a page size of 8 and one INT field (capacity 1) the first
  and the second insert into a new file both find slot 0 of the buffer empty, both
  write page 0, and the page count is still 1 afterwards; \<open>insert_into_file_stays\<close>
  shows the same for every schema whose pages hold a tuple. With three text fields of
  width 4 (capacity 0) the page count does become 2, but the insert into the fresh
  page has returned false and the tuple is in no page.
\<close>

theorem heap_file_count_never_grows:
  "DbFile 8 3 (Some 0) = Inr (numPages new_file)
   \<and> capacity (HeapPage 4 8 id_schema) = 1
   \<and> compatible id_schema (Tuple [IntField 7])
   \<and> compatible id_schema (Tuple [IntField 8])
   \<and> numPages (insert_into_file 4 8 id_schema behind new_file [Tuple [IntField 7]]) = 1
   \<and> numPages (insert_into_file 4 8 id_schema behind new_file
                  [Tuple [IntField 7], Tuple [IntField 8]]) = 1
   \<and> writes (insert_into_file 4 8 id_schema behind new_file
                [Tuple [IntField 7], Tuple [IntField 8]]) = [0, 0]
   \<and> capacity (HeapPage 4 8 wide_schema) = 0
   \<and> compatible wide_schema (Tuple [StringField [97], StringField [98], StringField [99]])
   \<and> HeapPage_insertTuple 4 behind (HeapPage 4 8 wide_schema) zero_memory
         (Tuple [StringField [97], StringField [98], StringField [99]])
       = (Inr False, zero_memory)
   \<and> HeapFile_insertTuple 4 8 wide_schema behind new_file
         (Tuple [StringField [97], StringField [98], StringField [99]])
       = (Inr (), HeapFile 2 [0] [1])"
proof -
  have cap: "1 \<le> capacity (HeapPage 4 8 id_schema)" by (simp add: small_page_capacity)
  note one = HeapFile_insert_stays [OF id_schema_compatible [of 7] cap, of behind new_file]
  note two = HeapFile_insert_stays [OF id_schema_compatible [of 8] cap, of behind
      "snd (HeapFile_insertTuple 4 8 id_schema behind new_file (Tuple [IntField 7]))"]
  have n: "numPages new_file = 1" "writes new_file = []" by (simp_all add: new_file_def)
  have id_part: "numPages (insert_into_file 4 8 id_schema behind new_file [Tuple [IntField 7]]) = 1
      \<and> numPages (insert_into_file 4 8 id_schema behind new_file
                  [Tuple [IntField 7], Tuple [IntField 8]]) = 1
      \<and> writes (insert_into_file 4 8 id_schema behind new_file
                [Tuple [IntField 7], Tuple [IntField 8]]) = [0, 0]"
    using one two by (simp add: insert_into_file_def n size_minus_1_def)
  have full: "HeapPage_insertTuple 4 behind (HeapPage 4 8 wide_schema) m
         (Tuple [StringField [97], StringField [98], StringField [99]])
       = (Inr False, m)" for m
    by (rule insertTuple_full) (simp add: wide_page_capacity)
  have wide: "HeapFile_insertTuple 4 8 wide_schema behind new_file
         (Tuple [StringField [97], StringField [98], StringField [99]])
       = (Inr (), HeapFile 2 [0] [1])"
    by (simp add: HeapFile_insertTuple_def readPage_def writePage_def full new_file_def
        size_minus_1_def)
  have ctor: "DbFile 8 3 (Some 0) = Inr (numPages new_file)"
    by (simp add: DbFile_def new_file_def)
  show ?thesis
    using ctor id_part full [of zero_memory] wide
    by (simp add: small_page_capacity id_schema_compatible wide_page_capacity
        wide_schema_compatible)
qed

end
